theory Spec2Isabelle
  imports Main "HOL-Library.While_Combinator"
begin

section \<open>The FiveTwelve game model (model.py)\<close>

subsection \<open>Python list indexing and exceptions\<close>

text \<open>
  The exceptions the model component can raise: an index out of range in a list
  access, and the failed \<^verbatim>\<open>assert\<close> of \<^verbatim>\<open>place_tile\<close>.
\<close>

datatype error = IndexError | AssertionError

text \<open>
  \<^verbatim>\<open>xs[i]\<close> for a list of length \<open>n\<close>: a negative index counts from the end, an
  index outside \<open>-n \<dots> n-1\<close> raises.
\<close>

definition py_index :: "nat \<Rightarrow> int \<Rightarrow> error + nat" where
  "py_index n i =
     (if 0 \<le> i \<and> i < int n then Inr (nat i)
      else if - int n \<le> i \<and> i < 0 then Inr (nat (i + int n))
      else Inl IndexError)"

text \<open>\<^verbatim>\<open>m[r][c]\<close> on a list of lists.\<close>

definition get2 :: "'a list list \<Rightarrow> int \<Rightarrow> int \<Rightarrow> error + 'a" where
  "get2 m r c =
     (case py_index (length m) r of
        Inl e \<Rightarrow> Inl e
      | Inr i \<Rightarrow>
          (case py_index (length (m ! i)) c of
             Inl e \<Rightarrow> Inl e
           | Inr j \<Rightarrow> Inr (m ! i ! j)))"

text \<open>\<^verbatim>\<open>m[r][c] = v\<close>: the row object \<^verbatim>\<open>m[r]\<close> is updated in place.\<close>

definition set2 :: "'a list list \<Rightarrow> int \<Rightarrow> int \<Rightarrow> 'a \<Rightarrow> error + 'a list list" where
  "set2 m r c v =
     (case py_index (length m) r of
        Inl e \<Rightarrow> Inl e
      | Inr i \<Rightarrow>
          (case py_index (length (m ! i)) c of
             Inl e \<Rightarrow> Inl e
           | Inr j \<Rightarrow> Inr (m[i := (m ! i)[j := v]])))"

subsection \<open>Data model\<close>

definition GRID_SIZE :: int where
  "GRID_SIZE = 4"

datatype EventKind = tile_created | tile_updated | tile_removed

text \<open>
  A \<^verbatim>\<open>Tile\<close> object: its position and its value. Tiles are objects with identity;
  the grid's cells and the events refer to them by reference (a \<open>nat\<close>, the
  address in \<open>objs\<close> below). The back reference \<^verbatim>\<open>self.grid\<close> always points to the
  one grid and is left implicit.
\<close>

record Tile =
  row :: int
  col :: int
  val :: int

text \<open>
  A \<^verbatim>\<open>GameEvent\<close> carries its kind and a reference to the tile; \<open>seen\<close> is what a
  listener reads from that tile when the event is delivered (delivery is synchronous).
\<close>

record GameEvent =
  kind :: EventKind
  tile :: nat
  seen :: Tile

text \<open>
  The \<^verbatim>\<open>Grid\<close> object together with the tile objects it has created. \<open>sum_g\<close> is the
  field \<^verbatim>\<open>self.sum\<close>; \<open>tiles\<close> is the list of rows, each cell \<open>None\<close> or a tile
  reference; \<open>objs\<close> maps a reference to the tile's fields and \<open>next_ref\<close> is the
  first reference not yet given to a tile; \<open>events\<close> is the sequence of events passed
  to \<^verbatim>\<open>notify_all\<close> so far, oldest first. The listeners themselves belong to the
  view and are not modelled: the events are all they get.
\<close>

record Grid =
  rows :: int
  cols :: int
  sum_g :: int
  tiles :: "nat option list list"
  objs :: "nat \<Rightarrow> Tile"
  next_ref :: nat
  events :: "GameEvent list"

text \<open>\<^verbatim>\<open>Grid.__init__\<close>: an empty board of \<^verbatim>\<open>GRID_SIZE\<close> rows and columns, score 0.\<close>

definition Grid_init :: Grid where
  "Grid_init =
     \<lparr>rows = GRID_SIZE, cols = GRID_SIZE, sum_g = 0,
      tiles = replicate (nat GRID_SIZE) (replicate (nat GRID_SIZE) None),
      objs = (\<lambda>_. \<lparr>row = 0, col = 0, val = 0\<rparr>), next_ref = 0, events = []\<rparr>"

text \<open>\<^verbatim>\<open>Tile(grid, row, col, value)\<close>: a new object, returned with the extended store.\<close>

definition new_tile :: "int \<Rightarrow> int \<Rightarrow> int \<Rightarrow> Grid \<Rightarrow> nat \<times> Grid" where
  "new_tile r c v g =
     (next_ref g,
      g\<lparr>objs := (objs g)(next_ref g := \<lparr>row = r, col = c, val = v\<rparr>),
        next_ref := Suc (next_ref g)\<rparr>)"

text \<open>\<^verbatim>\<open>notify_all(GameEvent(k, tile))\<close>.\<close>

definition notify_all :: "EventKind \<Rightarrow> nat \<Rightarrow> Grid \<Rightarrow> Grid" where
  "notify_all k t g = g\<lparr>events := events g @ [\<lparr>kind = k, tile = t, seen = objs g t\<rparr>]\<rparr>"

definition in_bounds :: "Grid \<Rightarrow> int \<Rightarrow> int \<Rightarrow> bool" where
  "in_bounds g r c = (0 \<le> r \<and> r < rows g \<and> 0 \<le> c \<and> c < cols g)"

definition as_list :: "Grid \<Rightarrow> int list list" where
  "as_list g =
     map (map (\<lambda>cell. case cell of None \<Rightarrow> 0 | Some t \<Rightarrow> val (objs g t))) (tiles g)"

definition score :: "Grid \<Rightarrow> int" where
  "score g = sum_g g"

subsection \<open>Tile: move, merge, remove, slide\<close>

text \<open>
  \<^verbatim>\<open>Tile.move\<close>: the cell at the tile's own recorded position is cleared, the tile's
  position fields are set, the target cell takes the tile, and \<^verbatim>\<open>tile_updated\<close> is
  announced.
\<close>

definition move :: "nat \<Rightarrow> int \<Rightarrow> int \<Rightarrow> Grid \<Rightarrow> error + Grid" where
  "move t r c g =
     (case set2 (tiles g) (row (objs g t)) (col (objs g t)) None of
        Inl e \<Rightarrow> Inl e
      | Inr m1 \<Rightarrow>
          (case set2 m1 r c (Some t) of
             Inl e \<Rightarrow> Inl e
           | Inr m2 \<Rightarrow>
               Inr (notify_all tile_updated t
                 (g\<lparr>tiles := m2, objs := (objs g)(t := (objs g t)\<lparr>row := r, col := c\<rparr>)\<rparr>))))"

text \<open>\<^verbatim>\<open>Tile.remove\<close> only announces \<^verbatim>\<open>tile_removed\<close>.\<close>

definition remove_t :: "nat \<Rightarrow> Grid \<Rightarrow> Grid" where
  "remove_t t g = notify_all tile_removed t g"

text \<open>\<^verbatim>\<open>Tile.merge\<close>: this tile's value grows by the other's; the other is removed.\<close>

definition merge :: "nat \<Rightarrow> nat \<Rightarrow> Grid \<Rightarrow> Grid" where
  "merge t other g =
     notify_all tile_updated t
       (remove_t other
          (g\<lparr>objs := (objs g)(t := (objs g t)\<lparr>val := val (objs g t) + val (objs g other)\<rparr>)\<rparr>))"

text \<open>
  The state of the probe loop of \<^verbatim>\<open>Tile.slide\<close>: whether the loop still runs, has
  left through \<^verbatim>\<open>break\<close>, or has been left by an exception; the local variables
  \<^verbatim>\<open>row\<close>, \<^verbatim>\<open>col\<close>; and the grid.
\<close>

datatype status = Running | Broke | Raised error

type_synonym probe = "status \<times> int \<times> int \<times> Grid"

text \<open>One pass through the body of \<^verbatim>\<open>while True\<close> (the \<^verbatim>\<open>print\<close> is not modelled).\<close>

definition slide_body :: "nat \<Rightarrow> int \<Rightarrow> int \<Rightarrow> probe \<Rightarrow> probe" where
  "slide_body t dx dy s =
     (case s of (st, r, c, g) \<Rightarrow>
        let trial_x = r + dy; trial_y = c + dx in
        if \<not> in_bounds g trial_x trial_y then (Broke, r, c, g)
        else
          (case get2 (tiles g) trial_x trial_y of
             Inl e \<Rightarrow> (Raised e, r, c, g)
           | Inr None \<Rightarrow>
               (case move t trial_x trial_y g of
                  Inl e \<Rightarrow> (Raised e, trial_x, trial_y, g)
                | Inr g1 \<Rightarrow> (Running, trial_x, trial_y, g1))
           | Inr (Some other) \<Rightarrow>
               if val (objs g other) = val (objs g t) then
                 (case move t trial_x trial_y (merge t other g) of
                    Inl e \<Rightarrow> (Raised e, trial_x, trial_y, g)
                  | Inr g1 \<Rightarrow>
                      (Running, trial_x, trial_y, g1\<lparr>sum_g := sum_g g1 + val (objs g1 t)\<rparr>))
               else (Broke, r, c, g)))"

definition running :: "probe \<Rightarrow> bool" where
  "running s = (fst s = Running)"

text \<open>
  \<^verbatim>\<open>Tile.slide\<close>. The loop starts with \<^verbatim>\<open>row, col = self.row, self.col\<close>. The result is \<open>None\<close> when the loop never ends, \<open>Some (Inl e)\<close>
  when it raises, \<open>Some (Inr g)\<close> when it returns.
\<close>

definition start :: "nat \<Rightarrow> Grid \<Rightarrow> probe" where
  "start t g = (Running, row (objs g t), col (objs g t), g)"

definition slide :: "nat \<Rightarrow> int \<times> int \<Rightarrow> Grid \<Rightarrow> (error + Grid) option" where
  "slide t movement_vector g =
     (case movement_vector of (dx, dy) \<Rightarrow>
        (case while_option running (slide_body t dx dy) (start t g) of
           None \<Rightarrow> None
         | Some (st, r, c, g1) \<Rightarrow>
             (case st of Raised e \<Rightarrow> Some (Inl e) | _ \<Rightarrow> Some (Inr g1))))"

subsection \<open>Grid: the four moves\<close>

text \<open>
  The body of the two nested \<^verbatim>\<open>for\<close> loops of a move at cell \<open>(i, j)\<close>: the cell is
  read from the current grid, and a tile found there slides. (A \<^verbatim>\<open>Tile\<close> object is
  always true in \<^verbatim>\<open>if col:\<close>.)
\<close>

definition visit :: "int \<times> int \<Rightarrow> nat \<times> nat \<Rightarrow> Grid \<Rightarrow> (error + Grid) option" where
  "visit movement_vector p g =
     (case tiles g ! fst p ! snd p of
        None \<Rightarrow> Some (Inr g)
      | Some t \<Rightarrow> slide t movement_vector g)"

fun visit_all :: "int \<times> int \<Rightarrow> (nat \<times> nat) list \<Rightarrow> Grid \<Rightarrow> (error + Grid) option" where
  "visit_all movement_vector [] g = Some (Inr g)"
| "visit_all movement_vector (p # ps) g =
     (case visit movement_vector p g of
        None \<Rightarrow> None
      | Some (Inl e) \<Rightarrow> Some (Inl e)
      | Some (Inr g1) \<Rightarrow> visit_all movement_vector ps g1)"

text \<open>
  The cells in the order the loops reach them. The moves assign to cells only and
  never change the length of a list, so the iterators of \<^verbatim>\<open>for\<close> and \<^verbatim>\<open>reversed\<close>
  run over the index ranges computed here.
\<close>

definition cells_of :: "bool \<Rightarrow> bool \<Rightarrow> Grid \<Rightarrow> (nat \<times> nat) list" where
  "cells_of rev_rows rev_cols g =
     concat (map (\<lambda>i. map (\<lambda>j. (i, j))
                   ((if rev_cols then rev else id) [0..<length (tiles g ! i)]))
               ((if rev_rows then rev else id) [0..<length (tiles g)]))"

definition left :: "Grid \<Rightarrow> (error + Grid) option" where
  "left g = visit_all (-1, 0) (cells_of False False g) g"

definition right :: "Grid \<Rightarrow> (error + Grid) option" where
  "right g = visit_all (1, 0) (cells_of False True g) g"

definition up :: "Grid \<Rightarrow> (error + Grid) option" where
  "up g = visit_all (0, -1) (cells_of False False g) g"

definition down :: "Grid \<Rightarrow> (error + Grid) option" where
  "down g = visit_all (0, 1) (cells_of True False g) g"

subsection \<open>Grid: set_tiles, find_empty, place_tile\<close>

text \<open>
  The inner loop of \<^verbatim>\<open>set_tiles\<close> over the columns \<open>cs\<close> still to do of row \<open>r\<close>;
  \<open>acc\<close> is \<^verbatim>\<open>row_tiles\<close>.
\<close>

fun set_row :: "int list list \<Rightarrow> int \<Rightarrow> int list \<Rightarrow> nat option list \<Rightarrow> Grid
    \<Rightarrow> error + (nat option list \<times> Grid)" where
  "set_row rep r [] acc g = Inr (acc, g)"
| "set_row rep r (c # cs) acc g =
     (case get2 rep r c of
        Inl e \<Rightarrow> Inl e
      | Inr v \<Rightarrow>
          if v = 0 then set_row rep r cs (acc @ [None]) g
          else
            (case new_tile r c v g of
               (t, g1) \<Rightarrow> set_row rep r cs (acc @ [Some t]) (notify_all tile_created t g1)))"

text \<open>
  The outer loop over the rows \<open>rs\<close> still to do; \<open>acc\<close> is \<^verbatim>\<open>self.tiles\<close>, which
  \<^verbatim>\<open>set_tiles\<close> empties first and no loop reads. A call that raises gives the
  exception only: the grid it leaves behind (rows built so far) is not part of the result.
\<close>

fun set_rows :: "int list list \<Rightarrow> int list \<Rightarrow> nat option list list \<Rightarrow> Grid
    \<Rightarrow> error + (nat option list list \<times> Grid)" where
  "set_rows rep [] acc g = Inr (acc, g)"
| "set_rows rep (r # rs) acc g =
     (case set_row rep r [0..cols g - 1] [] g of
        Inl e \<Rightarrow> Inl e
      | Inr (row_tiles, g1) \<Rightarrow> set_rows rep rs (acc @ [row_tiles]) g1)"

definition set_tiles :: "int list list \<Rightarrow> Grid \<Rightarrow> error + Grid" where
  "set_tiles rep g =
     (case set_rows rep [0..rows g - 1] [] g of
        Inl e \<Rightarrow> Inl e
      | Inr (m, g1) \<Rightarrow> Inr (g1\<lparr>tiles := m\<rparr>))"

text \<open>The scan of \<^verbatim>\<open>find_empty\<close> over the positions \<open>ps\<close>, collecting the empty ones.\<close>

fun candidates :: "Grid \<Rightarrow> (int \<times> int) list \<Rightarrow> error + (int \<times> int) list" where
  "candidates g [] = Inr []"
| "candidates g (p # ps) =
     (case get2 (tiles g) (fst p) (snd p) of
        Inl e \<Rightarrow> Inl e
      | Inr cell \<Rightarrow>
          (case candidates g ps of
             Inl e \<Rightarrow> Inl e
           | Inr found \<Rightarrow> Inr (if cell = None then p # found else found)))"

definition positions :: "Grid \<Rightarrow> (int \<times> int) list" where
  "positions g = concat (map (\<lambda>r. map (\<lambda>c. (r, c)) [0..cols g - 1]) [0..rows g - 1])"

text \<open>
  \<^verbatim>\<open>random.choice(seq)\<close> returns \<^verbatim>\<open>seq[k]\<close> for an index \<open>k\<close> below the length that the
  generator draws. The draw is an argument of the model; any number stands for the
  index it is congruent to.
\<close>

definition random_choice :: "nat \<Rightarrow> 'a list \<Rightarrow> 'a" where
  "random_choice k xs = xs ! (k mod length xs)"

text \<open>
  \<^verbatim>\<open>find_empty\<close>, with the draw \<open>k\<close> of \<^verbatim>\<open>random.choice\<close>. It returns its result
  together with the grid it leaves behind.
\<close>

definition find_empty :: "nat \<Rightarrow> Grid \<Rightarrow> error + ((int \<times> int) option \<times> Grid)" where
  "find_empty k g =
     (case candidates g (positions g) of
        Inl e \<Rightarrow> Inl e
      | Inr found \<Rightarrow>
          if found = [] then Inr (None, g) else Inr (Some (random_choice k found), g))"

text \<open>
  \<^verbatim>\<open>place_tile\<close>, with the draw \<open>k\<close> of \<^verbatim>\<open>random.choice\<close> and the result \<open>d\<close> of
  \<^verbatim>\<open>random.randint(1, 10)\<close>.
\<close>

definition place_tile :: "nat \<Rightarrow> int \<Rightarrow> Grid \<Rightarrow> error + Grid" where
  "place_tile k d g =
     (case find_empty k g of
        Inl e \<Rightarrow> Inl e
      | Inr (spot, g0) \<Rightarrow>
          (case spot of
             None \<Rightarrow> Inl AssertionError
           | Some (r, c) \<Rightarrow>
               (case new_tile r c (if d = 4 then 4 else 2) g0 of
                  (t, g1) \<Rightarrow>
                    (case set2 (tiles g1) r c (Some t) of
                       Inl e \<Rightarrow> Inl e
                     | Inr m \<Rightarrow> Inr (notify_all tile_created t (g1\<lparr>tiles := m\<rparr>))))))"

section \<open>Notions used in the statements and proofs\<close>

subsection \<open>Cells, sums and the representation invariant\<close>

text \<open>The matrix \<open>m\<close> with the entry at \<open>(i, j)\<close> replaced, for indices in range.\<close>

definition upd2 :: "'a list list \<Rightarrow> nat \<Rightarrow> nat \<Rightarrow> 'a \<Rightarrow> 'a list list" where
  "upd2 m i j v = m[i := (m ! i)[j := v]]"

text \<open>The sum of \<open>f\<close> over all entries of a matrix.\<close>

definition sum2 :: "('a \<Rightarrow> int) \<Rightarrow> 'a list list \<Rightarrow> int" where
  "sum2 f m = sum_list (map (\<lambda>r. sum_list (map f r)) m)"

text \<open>What \<^verbatim>\<open>as_list\<close> shows for a cell, and the sum of all values on the grid.\<close>

definition cell_value :: "Grid \<Rightarrow> nat option \<Rightarrow> int" where
  "cell_value g cell = (case cell of None \<Rightarrow> 0 | Some t \<Rightarrow> val (objs g t))"

definition board_sum :: "Grid \<Rightarrow> int" where
  "board_sum g = sum_list (map sum_list (as_list g))"

text \<open>
  The representation invariant of a grid: the cell array has \<^verbatim>\<open>rows\<close> rows of
  \<^verbatim>\<open>cols\<close> cells, and a tile in a cell has been created and carries the position
  of that cell in its own fields (so no tile is in two cells). \<^verbatim>\<open>Grid.__init__\<close>
  establishes it and every operation keeps it (\<open>game_grids_ok\<close> below).
\<close>

definition grid_ok :: "Grid \<Rightarrow> bool" where
  "grid_ok g \<longleftrightarrow>
     rows g = int (length (tiles g)) \<and>
     (\<forall>r \<in> set (tiles g). int (length r) = cols g) \<and>
     (\<forall>i \<in> set [0..<length (tiles g)]. \<forall>j \<in> set [0..<length (tiles g ! i)].
        case tiles g ! i ! j of
          None \<Rightarrow> True
        | Some t \<Rightarrow> t < next_ref g \<and> row (objs g t) = int i \<and> col (objs g t) = int j)"

text \<open>A tile is on the grid when the cell at its recorded position holds it.\<close>

definition on_grid :: "Grid \<Rightarrow> nat \<Rightarrow> bool" where
  "on_grid g t \<longleftrightarrow>
     in_bounds g (row (objs g t)) (col (objs g t)) \<and>
     tiles g ! nat (row (objs g t)) ! nat (col (objs g t)) = Some t"

subsection \<open>The two kinds of step of a slide\<close>

text \<open>
  The grid after tile \<open>t\<close> has stepped into the cell \<open>(r, c)\<close>: what \<^verbatim>\<open>Tile.move\<close>
  leaves when all its indices are in range. \<open>absorbed\<close> is the grid after the whole
  merge branch of the loop: merge, move, and the addition to the score.
\<close>

definition slid :: "nat \<Rightarrow> int \<Rightarrow> int \<Rightarrow> Grid \<Rightarrow> Grid" where
  "slid t r c g =
     notify_all tile_updated t
       (g\<lparr>tiles := upd2 (upd2 (tiles g) (nat (row (objs g t))) (nat (col (objs g t))) None)
                  (nat r) (nat c) (Some t),
          objs := (objs g)(t := (objs g t)\<lparr>row := r, col := c\<rparr>)\<rparr>)"

definition absorbed :: "nat \<Rightarrow> nat \<Rightarrow> int \<Rightarrow> int \<Rightarrow> Grid \<Rightarrow> Grid" where
  "absorbed t other r c g =
     (let g1 = slid t r c (merge t other g) in g1\<lparr>sum_g := sum_g g1 + val (objs g1 t)\<rparr>)"

text \<open>
  The conditions under which the loop takes a step of tile \<open>t\<close> to the cell
  \<open>(r, c)\<close>: onto an empty cell (\<open>can_slide\<close>) or onto a tile of equal value
  (\<open>can_merge\<close>).
\<close>

definition can_step :: "Grid \<Rightarrow> nat \<Rightarrow> int \<Rightarrow> int \<Rightarrow> bool" where
  "can_step g t r c \<longleftrightarrow>
     grid_ok g \<and> on_grid g t \<and> in_bounds g r c \<and> (r, c) \<noteq> (row (objs g t), col (objs g t))"

definition can_slide :: "Grid \<Rightarrow> nat \<Rightarrow> int \<Rightarrow> int \<Rightarrow> bool" where
  "can_slide g t r c \<longleftrightarrow> can_step g t r c \<and> tiles g ! nat r ! nat c = None"

definition can_merge :: "Grid \<Rightarrow> nat \<Rightarrow> nat \<Rightarrow> int \<Rightarrow> int \<Rightarrow> bool" where
  "can_merge g t other r c \<longleftrightarrow>
     can_step g t r c \<and> tiles g ! nat r ! nat c = Some other \<and>
     val (objs g other) = val (objs g t)"
text \<open>The tile \<open>t\<close> is in some cell of the grid.\<close>

definition in_cells :: "Grid \<Rightarrow> nat \<Rightarrow> bool" where
  "in_cells g t \<longleftrightarrow> Some t \<in> set (concat (tiles g))"
subsection \<open>The probe loop\<close>

text \<open>
  The four movement vectors of the moves; a bound on the passes the loop can still
  make from a state; the reason for which a slide ends (the next cell is outside the
  grid or holds a tile of another value); and the invariant of the loop, with a
  property \<open>Q\<close> of the grid that the steps keep.
\<close>

definition unit_vector :: "int \<times> int \<Rightarrow> bool" where
  "unit_vector v \<longleftrightarrow> v = (-1, 0) \<or> v = (1, 0) \<or> v = (0, -1) \<or> v = (0, 1)"

definition passes_left :: "int \<Rightarrow> int \<Rightarrow> probe \<Rightarrow> nat" where
  "passes_left dx dy s =
     (case s of (st, r, c, g) \<Rightarrow>
        if st \<noteq> Running then 0
        else 1 + nat (if dx = -1 then c else if dx = 1 then cols g - 1 - c
                      else if dy = -1 then r else rows g - 1 - r))"

definition blocked :: "int \<Rightarrow> int \<Rightarrow> Grid \<Rightarrow> nat \<Rightarrow> bool" where
  "blocked dx dy g t =
     (let r = row (objs g t) + dy; c = col (objs g t) + dx in
      if in_bounds g r c then
        (case tiles g ! nat r ! nat c of
           None \<Rightarrow> False
         | Some other \<Rightarrow> val (objs g other) \<noteq> val (objs g t))
      else True)"

definition probe_ok :: "nat \<Rightarrow> int \<Rightarrow> int \<Rightarrow> (Grid \<Rightarrow> bool) \<Rightarrow> probe \<Rightarrow> bool" where
  "probe_ok t dx dy Q s =
     (case s of (st, r, c, g) \<Rightarrow>
        (st = Running \<or> st = Broke \<and> blocked dx dy g t) \<and> grid_ok g \<and> on_grid g t \<and>
        r = row (objs g t) \<and> c = col (objs g t) \<and> Q g)"
text \<open>Two grids have cell arrays of the same shape.\<close>

definition same_shape :: "Grid \<Rightarrow> Grid \<Rightarrow> bool" where
  "same_shape g g1 \<longleftrightarrow>
     length (tiles g1) = length (tiles g) \<and>
     (\<forall>k. length (tiles g1 ! k) = length (tiles g ! k))"

subsection \<open>Loading, placing, and what follows a grid\<close>

text \<open>The grid of a new game after a matrix has been loaded into it.\<close>

definition board_of :: "int list list \<Rightarrow> Grid" where
  "board_of rep = (case set_tiles rep Grid_init of Inl e \<Rightarrow> Grid_init | Inr g \<Rightarrow> g)"

text \<open>
  The matrix has an entry at \<open>(r, c)\<close>; a cell agrees with the entry of the matrix
  at its position; and a grid differs from an earlier one by new tiles and events only.
\<close>

definition entry_ok :: "int list list \<Rightarrow> int \<Rightarrow> int \<Rightarrow> bool" where
  "entry_ok rep r c \<longleftrightarrow> r < int (length rep) \<and> c < int (length (rep ! nat r))"

definition loaded_cell :: "int list list \<Rightarrow> Grid \<Rightarrow> int \<Rightarrow> int \<Rightarrow> nat option \<Rightarrow> bool" where
  "loaded_cell rep g r c x =
     (case x of
        None \<Rightarrow> rep ! nat r ! nat c = 0
      | Some u \<Rightarrow>
          u < next_ref g \<and> objs g u = \<lparr>row = r, col = c, val = rep ! nat r ! nat c\<rparr>)"

definition extends :: "Grid \<Rightarrow> Grid \<Rightarrow> bool" where
  "extends g g1 \<longleftrightarrow>
     sum_g g1 = sum_g g \<and> rows g1 = rows g \<and> cols g1 = cols g \<and> tiles g1 = tiles g \<and>
     next_ref g \<le> next_ref g1 \<and> (\<forall>u < next_ref g. objs g1 u = objs g u)"

text \<open>
  A matrix covers a grid when it has an entry at every position of the grid; the
  matrix a grid then takes is the block of these entries.
\<close>

definition covers :: "int list list \<Rightarrow> Grid \<Rightarrow> bool" where
  "covers rep g \<longleftrightarrow> (\<forall>r \<in> set [0..rows g - 1]. \<forall>c \<in> set [0..cols g - 1]. entry_ok rep r c)"

definition block :: "int list list \<Rightarrow> Grid \<Rightarrow> int list list" where
  "block rep g = map (\<lambda>r. map (\<lambda>c. rep ! nat r ! nat c) [0..cols g - 1]) [0..rows g - 1]"

text \<open>The empty cells of a grid, in the order \<^verbatim>\<open>find_empty\<close> collects them.\<close>

definition empty_cells :: "Grid \<Rightarrow> (int \<times> int) list" where
  "empty_cells g = filter (\<lambda>p. tiles g ! nat (fst p) ! nat (snd p) = None) (positions g)"

text \<open>The grid after a new tile of value \<open>v\<close> has been put into the cell \<open>(r, c)\<close>.\<close>

definition placed :: "int \<Rightarrow> int \<Rightarrow> int \<Rightarrow> Grid \<Rightarrow> Grid" where
  "placed r c v g =
     notify_all tile_created (next_ref g)
       (g\<lparr>objs := (objs g)(next_ref g := \<lparr>row = r, col = c, val = v\<rparr>),
          next_ref := Suc (next_ref g),
          tiles := upd2 (tiles g) (nat r) (nat c) (Some (next_ref g))\<rparr>)"

text \<open>A full grid: sixteen tiles, the tile \<open>u\<close> in row \<open>u div 4\<close> and column \<open>u mod 4\<close>.\<close>

definition full_grid :: Grid where
  "full_grid =
     \<lparr>rows = 4, cols = 4, sum_g = 0,
      tiles = [[Some 0, Some 1, Some 2, Some 3], [Some 4, Some 5, Some 6, Some 7],
               [Some 8, Some 9, Some 10, Some 11], [Some 12, Some 13, Some 14, Some 15]],
      objs = (\<lambda>u. \<lparr>row = int (u div 4), col = int (u mod 4), val = 2 ^ (u + 1)\<rparr>),
      next_ref = 16, events = []\<rparr>"

text \<open>
  The values of the tiles removed in a sequence of events, summed. A tile is removed
  only by a merge, which removes the absorbed tile; its value is the value the two
  merged tiles shared.
\<close>

definition merged_total :: "GameEvent list \<Rightarrow> int" where
  "merged_total evs = sum_list (map (\<lambda>e. val (seen e)) (filter (\<lambda>e. kind e = tile_removed) evs))"

text \<open>
  The grids that can follow a grid in a game: after the slide of a tile on the grid
  along a unit vector, a move, a placement or a load that returns.
\<close>

inductive later :: "Grid \<Rightarrow> Grid \<Rightarrow> bool" where
  later_now: "later g g"
| later_slide: "later g g1 \<Longrightarrow> on_grid g1 t \<Longrightarrow> unit_vector mv \<Longrightarrow> slide t mv g1 = Some (Inr g2)
    \<Longrightarrow> later g g2"
| later_left: "later g g1 \<Longrightarrow> left g1 = Some (Inr g2) \<Longrightarrow> later g g2"
| later_right: "later g g1 \<Longrightarrow> right g1 = Some (Inr g2) \<Longrightarrow> later g g2"
| later_up: "later g g1 \<Longrightarrow> up g1 = Some (Inr g2) \<Longrightarrow> later g g2"
| later_down: "later g g1 \<Longrightarrow> down g1 = Some (Inr g2) \<Longrightarrow> later g g2"
| later_place: "later g g1 \<Longrightarrow> place_tile k d g1 = Inr g2 \<Longrightarrow> later g g2"
| later_load: "later g g1 \<Longrightarrow> set_tiles rep g1 = Inr g2 \<Longrightarrow> later g g2"

section \<open>Lemmas about the operations\<close>

subsection \<open>Indices in range\<close>

lemma py_index_in: "0 \<le> i \<Longrightarrow> i < int n \<Longrightarrow> py_index n i = Inr (nat i)"
  by (simp add: py_index_def)

lemma get2_in:
  "0 \<le> r \<Longrightarrow> r < int (length m) \<Longrightarrow> 0 \<le> c \<Longrightarrow> c < int (length (m ! nat r))
   \<Longrightarrow> get2 m r c = Inr (m ! nat r ! nat c)"
  by (simp add: get2_def py_index_in)

lemma set2_in:
  "0 \<le> r \<Longrightarrow> r < int (length m) \<Longrightarrow> 0 \<le> c \<Longrightarrow> c < int (length (m ! nat r))
   \<Longrightarrow> set2 m r c v = Inr (upd2 m (nat r) (nat c) v)"
  by (simp add: set2_def py_index_in upd2_def)

lemma length_upd2 [simp]: "length (upd2 m i j v) = length m"
  by (simp add: upd2_def)

lemma length_upd2_row [simp]: "length (upd2 m i j v ! k) = length (m ! k)"
  by (cases "i < length m"; cases "k = i") (simp_all add: upd2_def list_update_beyond)

lemma upd2_nth_same: "i < length m \<Longrightarrow> j < length (m ! i) \<Longrightarrow> upd2 m i j v ! i ! j = v"
  by (simp add: upd2_def)

lemma upd2_nth_other: "(i', j') \<noteq> (i, j) \<Longrightarrow> upd2 m i j v ! i' ! j' = m ! i' ! j'"
  by (cases "i < length m"; cases "i' = i") (auto simp: upd2_def list_update_beyond)

lemma sum_list_upd_int:
  fixes xs :: "int list"
  shows "k < length xs \<Longrightarrow> sum_list (xs[k := x]) = sum_list xs - xs ! k + x"
  by (induction xs arbitrary: k) (auto split: nat.splits)

lemma sum2_upd2:
  "i < length m \<Longrightarrow> j < length (m ! i) \<Longrightarrow> sum2 f (upd2 m i j v) = sum2 f m - f (m ! i ! j) + f v"
  by (simp add: sum2_def upd2_def map_update sum_list_upd_int)

lemma sum2_cong:
  assumes "\<And>i j. i < length m \<Longrightarrow> j < length (m ! i) \<Longrightarrow> f (m ! i ! j) = f' (m ! i ! j)"
  shows "sum2 f m = sum2 f' m"
proof -
  have "\<And>r. r \<in> set m \<Longrightarrow> map f r = map f' r"
  proof -
    fix r assume "r \<in> set m"
    then obtain i where i: "i < length m" "r = m ! i" by (auto simp: in_set_conv_nth)
    show "map f r = map f' r"
      by (rule nth_equalityI) (use i assms in auto)
  qed
  then show ?thesis by (simp add: sum2_def cong: map_cong)
qed

lemma board_sum_sum2: "board_sum g = sum2 (cell_value g) (tiles g)"
proof -
  have "cell_value g = case_option 0 (\<lambda>t. val (objs g t))"
    by (rule ext) (simp add: cell_value_def)
  then show ?thesis
    by (simp add: board_sum_def as_list_def sum2_def comp_def)
qed

lemma grid_okD:
  assumes "grid_ok g"
  shows "rows g = int (length (tiles g))"
    and "i < length (tiles g) \<Longrightarrow> int (length (tiles g ! i)) = cols g"
    and "i < length (tiles g) \<Longrightarrow> j < length (tiles g ! i) \<Longrightarrow> tiles g ! i ! j = Some t
         \<Longrightarrow> t < next_ref g \<and> row (objs g t) = int i \<and> col (objs g t) = int j"
  using assms by (auto simp: grid_ok_def split: option.splits)

lemma grid_okI:
  assumes "rows g = int (length (tiles g))"
    and "\<And>i. i < length (tiles g) \<Longrightarrow> int (length (tiles g ! i)) = cols g"
    and "\<And>i j t. i < length (tiles g) \<Longrightarrow> j < length (tiles g ! i) \<Longrightarrow> tiles g ! i ! j = Some t
         \<Longrightarrow> t < next_ref g \<and> row (objs g t) = int i \<and> col (objs g t) = int j"
  shows "grid_ok g"
  using assms by (auto simp: grid_ok_def in_set_conv_nth split: option.splits)


lemma in_boundsD:
  assumes "grid_ok g" "in_bounds g r c"
  shows "0 \<le> r" "0 \<le> c" "nat r < length (tiles g)" "nat c < length (tiles g ! nat r)"
    "r < int (length (tiles g))" "c < int (length (tiles g ! nat r))"
proof -
  from assms show r: "0 \<le> r" and c: "0 \<le> c" by (simp_all add: in_bounds_def)
  from assms show r2: "nat r < length (tiles g)"
    by (simp add: in_bounds_def grid_okD(1)) linarith
  from assms grid_okD(2)[OF assms(1) r2] show "nat c < length (tiles g ! nat r)"
    by (simp add: in_bounds_def) linarith
  with c show "c < int (length (tiles g ! nat r))" by linarith
  from r r2 show "r < int (length (tiles g))" by linarith
qed

lemma move_slid:
  assumes "grid_ok g" "on_grid g t" "in_bounds g r c"
  shows "move t r c g = Inr (slid t r c g)"
proof -
  let ?r0 = "row (objs g t)" and ?c0 = "col (objs g t)"
  from assms(2) have b0: "in_bounds g ?r0 ?c0" by (simp add: on_grid_def)
  note d0 = in_boundsD[OF assms(1) b0] and d = in_boundsD[OF assms(1) assms(3)]
  have s1: "set2 (tiles g) ?r0 ?c0 None = Inr (upd2 (tiles g) (nat ?r0) (nat ?c0) None)"
    using d0 by (intro set2_in) simp_all
  have s2: "set2 (upd2 (tiles g) (nat ?r0) (nat ?c0) None) r c (Some t)
      = Inr (upd2 (upd2 (tiles g) (nat ?r0) (nat ?c0) None) (nat r) (nat c) (Some t))"
    using d by (intro set2_in) simp_all
  show ?thesis by (simp add: move_def s1 s2 slid_def)
qed

lemma merge_fields [simp]:
  "tiles (merge t other g) = tiles g" "rows (merge t other g) = rows g"
  "cols (merge t other g) = cols g" "next_ref (merge t other g) = next_ref g"
  "sum_g (merge t other g) = sum_g g"
  "row (objs (merge t other g) u) = row (objs g u)"
  "col (objs (merge t other g) u) = col (objs g u)"
  "val (objs (merge t other g) u) =
     (if u = t then val (objs g t) + val (objs g other) else val (objs g u))"
  by (simp_all add: merge_def remove_t_def notify_all_def)

lemma merge_ok: "grid_ok (merge t other g) = grid_ok g"
  by (simp add: grid_ok_def cong: option.case_cong)

lemma merge_on_grid: "on_grid (merge t other g) u = on_grid g u"
  by (simp add: on_grid_def in_bounds_def)

lemma merge_in_bounds [simp]: "in_bounds (merge t other g) r c = in_bounds g r c"
  by (simp add: in_bounds_def)

lemma slide_body_cases:
  assumes ok: "grid_ok g" and on: "on_grid g t"
    and pos: "r = row (objs g t)" "c = col (objs g t)"
    and mv: "(dx, dy) \<noteq> (0, 0)"
  shows "(blocked dx dy g t \<and> slide_body t dx dy (Running, r, c, g) = (Broke, r, c, g)) \<or>
     (can_slide g t (r + dy) (c + dx) \<and>
      slide_body t dx dy (Running, r, c, g) = (Running, r + dy, c + dx, slid t (r + dy) (c + dx) g)) \<or>
     (\<exists>other. can_merge g t other (r + dy) (c + dx) \<and>
      slide_body t dx dy (Running, r, c, g)
        = (Running, r + dy, c + dx, absorbed t other (r + dy) (c + dx) g))"
proof (cases "in_bounds g (r + dy) (c + dx)")
  case False
  then have "slide_body t dx dy (Running, r, c, g) = (Broke, r, c, g)"
    by (simp add: slide_body_def)
  moreover from False have "blocked dx dy g t"
    unfolding pos by (simp add: blocked_def)
  ultimately show ?thesis by blast
next
  case True
  note d = in_boundsD[OF ok True]
  have g2: "get2 (tiles g) (r + dy) (c + dx) = Inr (tiles g ! nat (r + dy) ! nat (c + dx))"
    using d by (intro get2_in) simp_all
  from mv pos have ne: "(r + dy, c + dx) \<noteq> (row (objs g t), col (objs g t))" by auto
  with ok on True have cs: "can_step g t (r + dy) (c + dx)" by (simp add: can_step_def)
  show ?thesis
  proof (cases "tiles g ! nat (r + dy) ! nat (c + dx)")
    case None
    with cs have "can_slide g t (r + dy) (c + dx)" by (simp add: can_slide_def)
    moreover have "slide_body t dx dy (Running, r, c, g)
        = (Running, r + dy, c + dx, slid t (r + dy) (c + dx) g)"
      using True None by (simp add: slide_body_def Let_def g2 move_slid[OF ok on True])
    ultimately show ?thesis by blast
  next
    case (Some other)
    show ?thesis
    proof (cases "val (objs g other) = val (objs g t)")
      case False
      with True Some have "slide_body t dx dy (Running, r, c, g) = (Broke, r, c, g)"
        by (simp add: slide_body_def Let_def g2)
      moreover from False True Some have "blocked dx dy g t"
        unfolding pos by (simp add: blocked_def)
      ultimately show ?thesis by blast
    next
      case eq: True
      with cs Some have "can_merge g t other (r + dy) (c + dx)" by (simp add: can_merge_def)
      moreover have "move t (r + dy) (c + dx) (merge t other g)
          = Inr (slid t (r + dy) (c + dx) (merge t other g))"
        by (rule move_slid) (simp_all add: merge_ok merge_on_grid ok on True)
      then have "slide_body t dx dy (Running, r, c, g)
          = (Running, r + dy, c + dx, absorbed t other (r + dy) (c + dx) g)"
        using True Some eq by (simp add: slide_body_def g2 absorbed_def Let_def)
      ultimately show ?thesis by blast
    qed
  qed
qed


subsection \<open>A step of a tile\<close>

lemma in_cells_iff:
  "in_cells g t \<longleftrightarrow> (\<exists>i < length (tiles g). \<exists>j < length (tiles g ! i). tiles g ! i ! j = Some t)"
  by (fastforce simp: in_cells_def in_set_conv_nth)

lemma slid_fields [simp]:
  "rows (slid t r c g) = rows g" "cols (slid t r c g) = cols g"
  "next_ref (slid t r c g) = next_ref g" "sum_g (slid t r c g) = sum_g g"
  "val (objs (slid t r c g) u) = val (objs g u)"
  "length (tiles (slid t r c g)) = length (tiles g)"
  "length (tiles (slid t r c g) ! k) = length (tiles g ! k)"
  "objs (slid t r c g) t = (objs g t)\<lparr>row := r, col := c\<rparr>"
  "u \<noteq> t \<Longrightarrow> objs (slid t r c g) u = objs g u"
  by (simp_all add: slid_def notify_all_def)

lemma slid_events:
  "events (slid t r c g)
     = events g @ [\<lparr>kind = tile_updated, tile = t, seen = (objs g t)\<lparr>row := r, col := c\<rparr>\<rparr>]"
  by (simp add: slid_def notify_all_def)

lemma can_stepD:
  assumes "can_step g t r c"
  shows "grid_ok g" "on_grid g t" "in_bounds g r c"
    "in_bounds g (row (objs g t)) (col (objs g t))"
    "tiles g ! nat (row (objs g t)) ! nat (col (objs g t)) = Some t"
    "(nat r, nat c) \<noteq> (nat (row (objs g t)), nat (col (objs g t)))"
proof -
  from assms show ok: "grid_ok g" and "on_grid g t" and b: "in_bounds g r c"
    by (simp_all add: can_step_def)
  from assms show b0: "in_bounds g (row (objs g t)) (col (objs g t))"
    and "tiles g ! nat (row (objs g t)) ! nat (col (objs g t)) = Some t"
    by (simp_all add: can_step_def on_grid_def)
  from assms have "(r, c) \<noteq> (row (objs g t), col (objs g t))" by (simp add: can_step_def)
  with in_boundsD(1,2)[OF ok b] in_boundsD(1,2)[OF ok b0]
  show "(nat r, nat c) \<noteq> (nat (row (objs g t)), nat (col (objs g t)))" by auto
qed

lemma slid_cell:
  assumes cs: "can_step g t r c" and i: "i < length (tiles g)" and j: "j < length (tiles g ! i)"
  shows "tiles (slid t r c g) ! i ! j =
     (if (i, j) = (nat r, nat c) then Some t
      else if (i, j) = (nat (row (objs g t)), nat (col (objs g t))) then None
      else tiles g ! i ! j)"
proof -
  let ?r0 = "nat (row (objs g t))" and ?c0 = "nat (col (objs g t))"
  let ?m1 = "upd2 (tiles g) ?r0 ?c0 None"
  note d = in_boundsD[OF can_stepD(1,3)[OF cs]] and d0 = in_boundsD[OF can_stepD(1,4)[OF cs]]
  have t: "tiles (slid t r c g) = upd2 ?m1 (nat r) (nat c) (Some t)"
    by (simp add: slid_def notify_all_def)
  show ?thesis
  proof (cases "(i, j) = (nat r, nat c)")
    case True
    then show ?thesis using d by (simp add: t upd2_nth_same)
  next
    case ne: False
    show ?thesis
    proof (cases "(i, j) = (?r0, ?c0)")
      case True
      have "upd2 ?m1 (nat r) (nat c) (Some t) ! i ! j = ?m1 ! i ! j"
        using ne by (rule upd2_nth_other)
      also have "\<dots> = None" using True d0 by (simp add: upd2_nth_same)
      finally show ?thesis using ne True by (auto simp: t)
    next
      case False
      have "upd2 ?m1 (nat r) (nat c) (Some t) ! i ! j = ?m1 ! i ! j"
        using ne by (rule upd2_nth_other)
      also have "\<dots> = tiles g ! i ! j" using False by (rule upd2_nth_other)
      finally show ?thesis using ne False by (auto simp: t)
    qed
  qed
qed

lemma grid_ok_unique:
  assumes "grid_ok g" "on_grid g t" "i < length (tiles g)" "j < length (tiles g ! i)"
    "tiles g ! i ! j = Some t"
  shows "(i, j) = (nat (row (objs g t)), nat (col (objs g t)))"
  using grid_okD(3)[OF assms(1,3,4,5)] by simp

lemma slid_ok:
  assumes cs: "can_step g t r c"
  shows "grid_ok (slid t r c g)"
proof (rule grid_okI)
  note ok = can_stepD(1)[OF cs] and on = can_stepD(2)[OF cs]
  show "rows (slid t r c g) = int (length (tiles (slid t r c g)))"
    using grid_okD(1)[OF ok] by simp
  show "int (length (tiles (slid t r c g) ! i)) = cols (slid t r c g)"
    if "i < length (tiles (slid t r c g))" for i
    using that grid_okD(2)[OF ok] by simp
  show "u < next_ref (slid t r c g) \<and> row (objs (slid t r c g) u) = int i \<and>
      col (objs (slid t r c g) u) = int j"
    if i: "i < length (tiles (slid t r c g))" and j: "j < length (tiles (slid t r c g) ! i)"
      and u: "tiles (slid t r c g) ! i ! j = Some u" for i j u
  proof -
    from i j have i': "i < length (tiles g)" and j': "j < length (tiles g ! i)" by simp_all
    note d = in_boundsD[OF ok can_stepD(3)[OF cs]]
    show ?thesis
    proof (cases "(i, j) = (nat r, nat c)")
      case True
      with u slid_cell[OF cs i' j'] have "u = t" by simp
      moreover from grid_okD(3)[OF ok _ _ can_stepD(5)[OF cs]] in_boundsD[OF ok can_stepD(4)[OF cs]]
      have "t < next_ref g" by simp
      ultimately show ?thesis using True d by simp
    next
      case False
      with u slid_cell[OF cs i' j'] have old: "tiles g ! i ! j = Some u"
        and ne: "(i, j) \<noteq> (nat (row (objs g t)), nat (col (objs g t)))"
        by (simp_all split: if_splits)
      from ne grid_ok_unique[OF ok on i' j'] old have "u \<noteq> t" by auto
      with grid_okD(3)[OF ok i' j' old] show ?thesis by simp
    qed
  qed
qed

lemma slid_on_grid:
  assumes cs: "can_step g t r c"
  shows "on_grid (slid t r c g) t"
proof -
  note d = in_boundsD[OF can_stepD(1,3)[OF cs]]
  have "tiles (slid t r c g) ! nat r ! nat c = Some t"
    using slid_cell[OF cs d(3,4)] by simp
  with can_stepD(3)[OF cs] show ?thesis by (simp add: on_grid_def in_bounds_def)
qed

lemma cell_value_slid: "cell_value (slid t r c g) = cell_value g"
  by (rule ext) (simp add: cell_value_def split: option.splits)

lemma slid_board_sum:
  assumes cs: "can_step g t r c"
  shows "board_sum (slid t r c g) = board_sum g - cell_value g (tiles g ! nat r ! nat c)"
proof -
  let ?r0 = "nat (row (objs g t))" and ?c0 = "nat (col (objs g t))"
  let ?m1 = "upd2 (tiles g) ?r0 ?c0 None" and ?f = "cell_value g"
  note d = in_boundsD[OF can_stepD(1,3)[OF cs]] and d0 = in_boundsD[OF can_stepD(1,4)[OF cs]]
  have t: "tiles (slid t r c g) = upd2 ?m1 (nat r) (nat c) (Some t)"
    by (simp add: slid_def notify_all_def)
  have "sum2 ?f (upd2 ?m1 (nat r) (nat c) (Some t))
      = sum2 ?f ?m1 - ?f (?m1 ! nat r ! nat c) + ?f (Some t)"
    using d by (intro sum2_upd2) simp_all
  also have "?m1 ! nat r ! nat c = tiles g ! nat r ! nat c"
    using can_stepD(6)[OF cs] by (intro upd2_nth_other)
  also have "sum2 ?f ?m1 = sum2 ?f (tiles g) - ?f (tiles g ! ?r0 ! ?c0) + ?f None"
    using d0 by (intro sum2_upd2) simp_all
  finally have "sum2 ?f (tiles (slid t r c g))
      = sum2 ?f (tiles g) - ?f (tiles g ! nat r ! nat c) + ?f None"
    by (simp add: t can_stepD(5)[OF cs])
  moreover have "?f None = 0" by (simp add: cell_value_def)
  ultimately show ?thesis by (simp add: board_sum_sum2 cell_value_slid)
qed

lemma slid_in_cells:
  assumes cs: "can_step g t r c"
  shows "in_cells (slid t r c g) u \<longleftrightarrow> in_cells g u \<and> (u = t \<or> tiles g ! nat r ! nat c \<noteq> Some u)"
proof
  note ok = can_stepD(1)[OF cs] and on = can_stepD(2)[OF cs]
  note d = in_boundsD[OF ok can_stepD(3)[OF cs]] and d0 = in_boundsD[OF ok can_stepD(4)[OF cs]]
  {
    assume "in_cells (slid t r c g) u"
    then obtain i j where i: "i < length (tiles g)" and j: "j < length (tiles g ! i)"
      and u: "tiles (slid t r c g) ! i ! j = Some u"
      by (auto simp: in_cells_iff)
    show "in_cells g u \<and> (u = t \<or> tiles g ! nat r ! nat c \<noteq> Some u)"
    proof (cases "(i, j) = (nat r, nat c)")
      case True
      with u slid_cell[OF cs i j] have "u = t" by simp
      with d0 can_stepD(5)[OF cs] show ?thesis by (auto simp: in_cells_iff)
    next
      case False
      with u slid_cell[OF cs i j] have old: "tiles g ! i ! j = Some u"
        by (simp split: if_splits)
      have "tiles g ! nat r ! nat c \<noteq> Some u"
      proof
        assume "tiles g ! nat r ! nat c = Some u"
        from grid_okD(3)[OF ok d(3,4) this] grid_okD(3)[OF ok i j old]
        have "int i = int (nat r)" "int j = int (nat c)" by simp_all
        then have "i = nat r" "j = nat c" by (simp_all only: of_nat_eq_iff)
        with False show False by simp
      qed
      with old i j show ?thesis by (auto simp: in_cells_iff)
    qed
  }
  {
    assume a: "in_cells g u \<and> (u = t \<or> tiles g ! nat r ! nat c \<noteq> Some u)"
    show "in_cells (slid t r c g) u"
    proof (cases "u = t")
      case True
      have "tiles (slid t r c g) ! nat r ! nat c = Some t" using slid_cell[OF cs d(3,4)] by simp
      with d True show ?thesis by (auto simp: in_cells_iff)
    next
      case False
      from a obtain i j where i: "i < length (tiles g)" and j: "j < length (tiles g ! i)"
        and u: "tiles g ! i ! j = Some u"
        by (auto simp: in_cells_iff)
      from a False u have "(i, j) \<noteq> (nat r, nat c)" by auto
      moreover from u False can_stepD(5)[OF cs]
      have "(i, j) \<noteq> (nat (row (objs g t)), nat (col (objs g t)))" by auto
      ultimately have "tiles (slid t r c g) ! i ! j = Some u"
        using slid_cell[OF cs i j] u by auto
      with i j show ?thesis by (auto simp: in_cells_iff)
    qed
  }
qed


subsection \<open>A merge\<close>

lemma sum2_change_one:
  assumes i: "i < length m" and j: "j < length (m ! i)"
    and same: "\<And>i' j'. i' < length m \<Longrightarrow> j' < length (m ! i') \<Longrightarrow> (i', j') \<noteq> (i, j)
               \<Longrightarrow> f' (m ! i' ! j') = f (m ! i' ! j')"
    and v: "f' v = f v"
  shows "sum2 f' m = sum2 f m - f (m ! i ! j) + f' (m ! i ! j)"
proof -
  have "sum2 f' (upd2 m i j v) = sum2 f (upd2 m i j v)"
  proof (rule sum2_cong)
    fix i' j' assume a: "i' < length (upd2 m i j v)" "j' < length (upd2 m i j v ! i')"
    show "f' (upd2 m i j v ! i' ! j') = f (upd2 m i j v ! i' ! j')"
    proof (cases "(i', j') = (i, j)")
      case True
      with i j v show ?thesis by (simp add: upd2_nth_same)
    next
      case False
      then have "upd2 m i j v ! i' ! j' = m ! i' ! j'" by (rule upd2_nth_other)
      with same[OF _ _ False] a show ?thesis by simp
    qed
  qed
  then show ?thesis using v by (simp add: sum2_upd2[OF i j])
qed

lemma merge_board_sum:
  assumes ok: "grid_ok g" and on: "on_grid g t"
  shows "board_sum (merge t other g) = board_sum g + val (objs g other)"
proof -
  let ?r0 = "nat (row (objs g t))" and ?c0 = "nat (col (objs g t))"
  from on have b0: "in_bounds g (row (objs g t)) (col (objs g t))"
    and at: "tiles g ! ?r0 ! ?c0 = Some t" by (simp_all add: on_grid_def)
  note d0 = in_boundsD[OF ok b0]
  have "sum2 (cell_value (merge t other g)) (tiles g)
      = sum2 (cell_value g) (tiles g) - cell_value g (tiles g ! ?r0 ! ?c0)
        + cell_value (merge t other g) (tiles g ! ?r0 ! ?c0)"
  proof (rule sum2_change_one[OF d0(3,4), where v = None])
    fix i' j' assume a: "i' < length (tiles g)" "j' < length (tiles g ! i')"
      and ne: "(i', j') \<noteq> (?r0, ?c0)"
    from grid_ok_unique[OF ok on a] ne have "tiles g ! i' ! j' \<noteq> Some t" by auto
    then show "cell_value (merge t other g) (tiles g ! i' ! j') = cell_value g (tiles g ! i' ! j')"
      by (auto simp: cell_value_def split: option.splits)
  qed (simp add: cell_value_def)
  then show ?thesis by (simp add: board_sum_sum2 at cell_value_def)
qed

lemma can_step_merge: "can_step (merge t other g) t r c = can_step g t r c"
  by (simp add: can_step_def merge_ok merge_on_grid)

lemma sum_g_update_preds [simp]:
  "grid_ok (g\<lparr>sum_g := x\<rparr>) = grid_ok g" "on_grid (g\<lparr>sum_g := x\<rparr>) t = on_grid g t"
  "in_cells (g\<lparr>sum_g := x\<rparr>) t = in_cells g t" "board_sum (g\<lparr>sum_g := x\<rparr>) = board_sum g"
  by (simp_all add: grid_ok_def on_grid_def in_cells_def board_sum_def as_list_def in_bounds_def
      cong: option.case_cong)

lemma can_mergeD:
  assumes "can_merge g t other r c"
  shows "can_step g t r c" "tiles g ! nat r ! nat c = Some other"
    "val (objs g other) = val (objs g t)" "other \<noteq> t" "can_step (merge t other g) t r c"
proof -
  from assms show cs: "can_step g t r c" and o: "tiles g ! nat r ! nat c = Some other"
    and "val (objs g other) = val (objs g t)" by (simp_all add: can_merge_def)
  note d = in_boundsD[OF can_stepD(1,3)[OF cs]]
  from grid_ok_unique[OF can_stepD(1,2)[OF cs] d(3,4)] o can_stepD(6)[OF cs]
  show "other \<noteq> t" by auto
  from cs show "can_step (merge t other g) t r c" by (simp add: can_step_merge)
qed

lemma absorbed_fields [simp]:
  "rows (absorbed t other r c g) = rows g" "cols (absorbed t other r c g) = cols g"
  "next_ref (absorbed t other r c g) = next_ref g"
  "length (tiles (absorbed t other r c g)) = length (tiles g)"
  "length (tiles (absorbed t other r c g) ! k) = length (tiles g ! k)"
  "sum_g (absorbed t other r c g) = sum_g g + (val (objs g t) + val (objs g other))"
  "val (objs (absorbed t other r c g) u) =
     (if u = t then val (objs g t) + val (objs g other) else val (objs g u))"
  "row (objs (absorbed t other r c g) t) = r" "col (objs (absorbed t other r c g) t) = c"
  by (simp_all add: absorbed_def Let_def)

lemma absorbed_ok: "can_merge g t other r c \<Longrightarrow> grid_ok (absorbed t other r c g)"
  by (simp add: absorbed_def Let_def slid_ok can_mergeD(5))

lemma absorbed_on_grid: "can_merge g t other r c \<Longrightarrow> on_grid (absorbed t other r c g) t"
  by (simp add: absorbed_def Let_def slid_on_grid can_mergeD(5))

lemma absorbed_board_sum:
  assumes cm: "can_merge g t other r c"
  shows "board_sum (absorbed t other r c g) = board_sum g"
proof -
  note cs = can_mergeD(1)[OF cm]
  have "cell_value (merge t other g) (Some other) = val (objs g other)"
    using can_mergeD(4)[OF cm] by (simp add: cell_value_def)
  then show ?thesis
    by (simp add: absorbed_def Let_def slid_board_sum[OF can_mergeD(5)[OF cm]]
        merge_board_sum[OF can_stepD(1,2)[OF cs]] can_mergeD(2)[OF cm])
qed

lemma in_cells_merge [simp]: "in_cells (merge t other g) u = in_cells g u"
  by (simp add: in_cells_def)

lemma absorbed_in_cells:
  assumes cm: "can_merge g t other r c"
  shows "in_cells (absorbed t other r c g) u \<longleftrightarrow> in_cells g u \<and> u \<noteq> other"
  using can_mergeD(4)[OF cm]
  by (auto simp: absorbed_def Let_def slid_in_cells[OF can_mergeD(5)[OF cm]] can_mergeD(2)[OF cm])

lemma can_slide_in_cells:
  assumes "can_slide g t r c"
  shows "in_cells (slid t r c g) u \<longleftrightarrow> in_cells g u"
  using assms by (auto simp: can_slide_def slid_in_cells)

subsection \<open>The loop of a slide and the moves\<close>

lemma while_option_bounded:
  assumes step: "\<And>s. P s \<Longrightarrow> b s \<Longrightarrow> P (c s) \<and> f (c s) < (f s :: nat)"
    and init: "P s"
  shows "\<exists>k \<le> f s. while_option b c s = Some ((c ^^ k) s) \<and> P ((c ^^ k) s) \<and> \<not> b ((c ^^ k) s)"
  using init
proof (induction "f s" arbitrary: s rule: less_induct)
  case less
  show ?case
  proof (cases "b s")
    case False
    with less.prems have "while_option b c s = Some ((c ^^ 0) s) \<and> P ((c ^^ 0) s) \<and> \<not> b ((c ^^ 0) s)"
      by (simp add: while_option_unfold)
    then show ?thesis by blast
  next
    case True
    from step[OF less.prems True] have P: "P (c s)" and lt: "f (c s) < f s" by simp_all
    from less.hyps[OF lt P] obtain k where k: "k \<le> f (c s)"
      and w: "while_option b c (c s) = Some ((c ^^ k) (c s))"
      and r: "P ((c ^^ k) (c s))" "\<not> b ((c ^^ k) (c s))" by blast
    have "while_option b c s = while_option b c (c s)"
      using True by (subst while_option_unfold) simp
    with w r have "while_option b c s = Some ((c ^^ Suc k) s) \<and> P ((c ^^ Suc k) s)
        \<and> \<not> b ((c ^^ Suc k) s)"
      by (simp add: funpow_swap1)
    moreover from k lt have "Suc k \<le> f s" by simp
    ultimately show ?thesis by blast
  qed
qed

lemma slide_body_probe:
  assumes unit: "unit_vector (dx, dy)"
    and Qslide: "\<And>g r c. can_slide g t r c \<Longrightarrow> Q g \<Longrightarrow> Q (slid t r c g)"
    and Qmerge: "\<And>g other r c. can_merge g t other r c \<Longrightarrow> Q g \<Longrightarrow> Q (absorbed t other r c g)"
    and P: "probe_ok t dx dy Q s" and run: "running s"
  shows "probe_ok t dx dy Q (slide_body t dx dy s) \<and>
         passes_left dx dy (slide_body t dx dy s) < passes_left dx dy s"
proof -
  obtain st r c g where s: "s = (st, r, c, g)" by (cases s)
  from run s have st: "st = Running" by (simp add: running_def)
  from P s have ok: "grid_ok g" and on: "on_grid g t"
    and pos: "r = row (objs g t)" "c = col (objs g t)" and Q: "Q g"
    by (simp_all add: probe_ok_def)
  from unit have nz: "(dx, dy) \<noteq> (0, 0)" by (auto simp: unit_vector_def)
  let ?s = "(Running, r, c, g)"
  from s st have s': "s = ?s" by simp
  from slide_body_cases[OF ok on pos nz]
  consider (stop) "blocked dx dy g t" "slide_body t dx dy ?s = (Broke, r, c, g)"
    | (slide) "can_slide g t (r + dy) (c + dx)"
        "slide_body t dx dy ?s = (Running, r + dy, c + dx, slid t (r + dy) (c + dx) g)"
    | (merge) other where "can_merge g t other (r + dy) (c + dx)"
        "slide_body t dx dy ?s = (Running, r + dy, c + dx, absorbed t other (r + dy) (c + dx) g)"
    by blast
  then have "probe_ok t dx dy Q (slide_body t dx dy ?s) \<and>
         passes_left dx dy (slide_body t dx dy ?s) < passes_left dx dy ?s"
  proof cases
    case stop
    with ok on pos Q show ?thesis by (simp add: probe_ok_def passes_left_def)
  next
    case slide
    then have cs: "can_step g t (r + dy) (c + dx)" by (simp add: can_slide_def)
    from can_stepD(3)[OF cs] have b: "in_bounds g (r + dy) (c + dx)" .
    from on pos have b0: "in_bounds g r c" by (simp add: on_grid_def)
    have "probe_ok t dx dy Q (slide_body t dx dy ?s)"
      using slid_ok[OF cs] slid_on_grid[OF cs] Qslide[OF slide(1) Q]
      by (simp add: slide(2) probe_ok_def)
    moreover have "passes_left dx dy (slide_body t dx dy ?s) < passes_left dx dy ?s"
      using unit b b0 unfolding slide(2)
      by (auto simp: passes_left_def unit_vector_def in_bounds_def)
    ultimately show ?thesis by blast
  next
    case merge
    then have cs: "can_step g t (r + dy) (c + dx)" by (simp add: can_merge_def)
    from can_stepD(3)[OF cs] have b: "in_bounds g (r + dy) (c + dx)" .
    from on pos have b0: "in_bounds g r c" by (simp add: on_grid_def)
    have "probe_ok t dx dy Q (slide_body t dx dy ?s)"
      using absorbed_ok[OF merge(1)] absorbed_on_grid[OF merge(1)] Qmerge[OF merge(1) Q]
      by (simp add: merge(2) probe_ok_def)
    moreover have "passes_left dx dy (slide_body t dx dy ?s) < passes_left dx dy ?s"
      using unit b b0 unfolding merge(2)
      by (auto simp: passes_left_def unit_vector_def in_bounds_def)
    ultimately show ?thesis by blast
  qed
  then show ?thesis by (simp only: s')
qed


lemma passes_left_start:
  assumes "grid_ok g" "on_grid g t" "unit_vector (dx, dy)"
  shows "passes_left dx dy (start t g) \<le> nat (max (rows g) (cols g))"
  using assms
  by (auto simp: passes_left_def start_def on_grid_def in_bounds_def unit_vector_def)

lemma slide_total:
  assumes ok: "grid_ok g" and on: "on_grid g t" and unit: "unit_vector (dx, dy)"
    and Q0: "Q g"
    and Qslide: "\<And>g r c. can_slide g t r c \<Longrightarrow> Q g \<Longrightarrow> Q (slid t r c g)"
    and Qmerge: "\<And>g other r c. can_merge g t other r c \<Longrightarrow> Q g \<Longrightarrow> Q (absorbed t other r c g)"
  shows "\<exists>k g1. k \<le> nat (max (rows g) (cols g)) \<and>
           while_option running (slide_body t dx dy) (start t g)
             = Some ((slide_body t dx dy ^^ k) (start t g)) \<and>
           (slide_body t dx dy ^^ k) (start t g)
             = (Broke, row (objs g1 t), col (objs g1 t), g1) \<and>
           slide t (dx, dy) g = Some (Inr g1) \<and> grid_ok g1 \<and> on_grid g1 t \<and>
           blocked dx dy g1 t \<and> Q g1"
proof -
  let ?c = "slide_body t dx dy"
  have init: "probe_ok t dx dy Q (start t g)"
    using ok on Q0 by (simp add: probe_ok_def start_def)
  from while_option_bounded[where P = "probe_ok t dx dy Q" and b = running and c = ?c
      and f = "passes_left dx dy", OF slide_body_probe[OF unit Qslide Qmerge] init]
  obtain k where k: "k \<le> passes_left dx dy (start t g)"
    and w: "while_option running ?c (start t g) = Some ((?c ^^ k) (start t g))"
    and P: "probe_ok t dx dy Q ((?c ^^ k) (start t g))"
    and nr: "\<not> running ((?c ^^ k) (start t g))"
    by blast
  obtain st r c g1 where e: "(?c ^^ k) (start t g) = (st, r, c, g1)"
    by (cases "(?c ^^ k) (start t g)")
  from P nr e have st: "st = Broke" and g1: "grid_ok g1" "on_grid g1 t" "blocked dx dy g1 t" "Q g1"
    and pos: "r = row (objs g1 t)" "c = col (objs g1 t)"
    by (auto simp: probe_ok_def running_def)
  have "slide t (dx, dy) g = Some (Inr g1)"
    using w e st by (simp add: slide_def start_def)
  moreover from k passes_left_start[OF ok on unit]
  have "k \<le> nat (max (rows g) (cols g))" by simp
  ultimately show ?thesis using w e st g1 pos by blast
qed

lemma grid_ok_on_grid:
  assumes ok: "grid_ok g" and i: "i < length (tiles g)" and j: "j < length (tiles g ! i)"
    and t: "tiles g ! i ! j = Some t"
  shows "on_grid g t"
proof -
  from grid_okD(3)[OF ok i j t] have rc: "row (objs g t) = int i" "col (objs g t) = int j"
    by simp_all
  from grid_okD(1)[OF ok] grid_okD(2)[OF ok i] i j t show ?thesis
    by (simp add: on_grid_def in_bounds_def rc)
qed

lemma same_shape_refl [simp]: "same_shape g g"
  by (simp add: same_shape_def)

lemma same_shape_trans: "same_shape g g1 \<Longrightarrow> same_shape g1 g2 \<Longrightarrow> same_shape g g2"
  by (simp add: same_shape_def)

lemma same_shape_slid: "same_shape g g1 \<Longrightarrow> same_shape g (slid t r c g1)"
  by (simp add: same_shape_def)

lemma same_shape_absorbed: "same_shape g g1 \<Longrightarrow> same_shape g (absorbed t other r c g1)"
  by (simp add: same_shape_def)

lemma visit_all_total:
  assumes unit: "unit_vector mv"
    and Qslide: "\<And>g t r c. can_slide g t r c \<Longrightarrow> Q g \<Longrightarrow> Q (slid t r c g)"
    and Qmerge: "\<And>g t other r c. can_merge g t other r c \<Longrightarrow> Q g \<Longrightarrow> Q (absorbed t other r c g)"
    and ok: "grid_ok g" and Q0: "Q g"
    and ps: "\<And>p. p \<in> set ps \<Longrightarrow> fst p < length (tiles g) \<and> snd p < length (tiles g ! fst p)"
  shows "\<exists>g1. visit_all mv ps g = Some (Inr g1) \<and> grid_ok g1 \<and> same_shape g g1 \<and> Q g1"
  using ok Q0 ps
proof (induction ps arbitrary: g)
  case Nil
  then show ?case by simp
next
  case (Cons p ps)
  obtain dx dy where mv: "mv = (dx, dy)" by (cases mv)
  from Cons.prems(3)[of p] have i: "fst p < length (tiles g)"
    and j: "snd p < length (tiles g ! fst p)" by simp_all
  have "\<exists>g1. visit mv p g = Some (Inr g1) \<and> grid_ok g1 \<and> same_shape g g1 \<and> Q g1"
  proof (cases "tiles g ! fst p ! snd p")
    case None
    with Cons.prems(1,2) show ?thesis by (simp add: visit_def)
  next
    case (Some t)
    note on = grid_ok_on_grid[OF Cons.prems(1) i j Some]
    have "\<exists>k g1. k \<le> nat (max (rows g) (cols g)) \<and>
           while_option running (slide_body t dx dy) (start t g)
             = Some ((slide_body t dx dy ^^ k) (start t g)) \<and>
           (slide_body t dx dy ^^ k) (start t g)
             = (Broke, row (objs g1 t), col (objs g1 t), g1) \<and>
           slide t (dx, dy) g = Some (Inr g1) \<and> grid_ok g1 \<and> on_grid g1 t \<and>
           blocked dx dy g1 t \<and> (same_shape g g1 \<and> Q g1)"
      using unit Cons.prems(2)
      by (intro slide_total[OF Cons.prems(1) on])
         (simp_all add: mv same_shape_slid same_shape_absorbed Qslide Qmerge)
    then show ?thesis using Some by (auto simp: visit_def mv)
  qed
  then obtain g1 where v: "visit mv p g = Some (Inr g1)" and ok1: "grid_ok g1"
    and sh: "same_shape g g1" and Q1: "Q g1" by blast
  have "\<exists>g2. visit_all mv ps g1 = Some (Inr g2) \<and> grid_ok g2 \<and> same_shape g1 g2 \<and> Q g2"
  proof (rule Cons.IH[OF ok1 Q1])
    fix q assume "q \<in> set ps"
    with Cons.prems(3)[of q] sh
    show "fst q < length (tiles g1) \<and> snd q < length (tiles g1 ! fst q)"
      by (simp add: same_shape_def)
  qed
  then obtain g2 where "visit_all mv ps g1 = Some (Inr g2)" "grid_ok g2" "same_shape g1 g2" "Q g2"
    by blast
  with v sh show ?case by (auto intro: same_shape_trans)
qed

lemma cells_of_in_range:
  "p \<in> set (cells_of a b g) \<Longrightarrow> fst p < length (tiles g) \<and> snd p < length (tiles g ! fst p)"
  by (auto simp: cells_of_def split: if_splits)

lemma moves_total:
  assumes Qslide: "\<And>g t r c. can_slide g t r c \<Longrightarrow> Q g \<Longrightarrow> Q (slid t r c g)"
    and Qmerge: "\<And>g t other r c. can_merge g t other r c \<Longrightarrow> Q g \<Longrightarrow> Q (absorbed t other r c g)"
    and ok: "grid_ok g" and Q0: "Q g"
  shows "\<exists>g1. left g = Some (Inr g1) \<and> grid_ok g1 \<and> same_shape g g1 \<and> Q g1"
    and "\<exists>g1. right g = Some (Inr g1) \<and> grid_ok g1 \<and> same_shape g g1 \<and> Q g1"
    and "\<exists>g1. up g = Some (Inr g1) \<and> grid_ok g1 \<and> same_shape g g1 \<and> Q g1"
    and "\<exists>g1. down g = Some (Inr g1) \<and> grid_ok g1 \<and> same_shape g g1 \<and> Q g1"
  unfolding left_def right_def up_def down_def
  by (rule visit_all_total[OF _ Qslide Qmerge ok Q0 cells_of_in_range];
      simp add: unit_vector_def)+


lemma conserve_slid: "can_slide g t r c \<Longrightarrow> board_sum g = x \<Longrightarrow> board_sum (slid t r c g) = x"
  by (simp add: can_slide_def slid_board_sum cell_value_def)

lemma conserve_absorbed:
  "can_merge g t other r c \<Longrightarrow> board_sum g = x \<Longrightarrow> board_sum (absorbed t other r c g) = x"
  by (simp add: absorbed_board_sum)

lemma slide_first_pass:
  assumes ok: "grid_ok g" and on: "on_grid g t" and unit: "unit_vector (dx, dy)"
  shows "slide_body t dx dy (start t g) = (Broke, row (objs g t), col (objs g t), g) \<or>
     (\<exists>g1. slide_body t dx dy (start t g) = start t g1 \<and> grid_ok g1 \<and> on_grid g1 t \<and>
        rows g1 = rows g \<and> cols g1 = cols g \<and>
        in_bounds g (row (objs g t) + dy) (col (objs g t) + dx) \<and>
        row (objs g1 t) = row (objs g t) + dy \<and> col (objs g1 t) = col (objs g t) + dx)"
proof -
  from unit have nz: "(dx, dy) \<noteq> (0, 0)" by (auto simp: unit_vector_def)
  let ?r = "row (objs g t) + dy" and ?c = "col (objs g t) + dx"
  from slide_body_cases[OF ok on refl refl nz]
  consider (stop) "slide_body t dx dy (start t g) = (Broke, row (objs g t), col (objs g t), g)"
    | (slide) "can_slide g t ?r ?c"
        "slide_body t dx dy (start t g) = (Running, ?r, ?c, slid t ?r ?c g)"
    | (merge) other where "can_merge g t other ?r ?c"
        "slide_body t dx dy (start t g) = (Running, ?r, ?c, absorbed t other ?r ?c g)"
    unfolding start_def by blast
  then show ?thesis
  proof cases
    case stop
    then show ?thesis by simp
  next
    case slide
    then have cs: "can_step g t ?r ?c" by (simp add: can_slide_def)
    have "slide_body t dx dy (start t g) = start t (slid t ?r ?c g)"
      using slide(2) by (simp add: start_def)
    with slid_ok[OF cs] slid_on_grid[OF cs] can_stepD(3)[OF cs] show ?thesis
      by (intro disjI2 exI[of _ "slid t ?r ?c g"]) simp
  next
    case merge
    then have cs: "can_step g t ?r ?c" by (simp add: can_merge_def)
    have "slide_body t dx dy (start t g) = start t (absorbed t other ?r ?c g)"
      using merge(2) by (simp add: start_def)
    with absorbed_ok[OF merge(1)] absorbed_on_grid[OF merge(1)] can_stepD(3)[OF cs] show ?thesis
      by (intro disjI2 exI[of _ "absorbed t other ?r ?c g"]) simp
  qed
qed

lemma slide_body_merge:
  assumes ok: "grid_ok g" and on: "on_grid g t" and unit: "unit_vector (dx, dy)"
    and b: "in_bounds g (row (objs g t) + dy) (col (objs g t) + dx)"
    and cell: "tiles g ! nat (row (objs g t) + dy) ! nat (col (objs g t) + dx) = Some other"
    and eq: "val (objs g other) = val (objs g t)"
  shows "can_merge g t other (row (objs g t) + dy) (col (objs g t) + dx)"
    and "slide_body t dx dy (start t g)
      = start t (absorbed t other (row (objs g t) + dy) (col (objs g t) + dx) g)"
proof -
  let ?r = "row (objs g t) + dy" and ?c = "col (objs g t) + dx"
  from unit have nz: "(dx, dy) \<noteq> (0, 0)" by (auto simp: unit_vector_def)
  then have "(?r, ?c) \<noteq> (row (objs g t), col (objs g t))" by auto
  with ok on b cell eq show cm: "can_merge g t other ?r ?c"
    by (simp add: can_merge_def can_step_def)
  note d = in_boundsD[OF ok b]
  have g2: "get2 (tiles g) ?r ?c = Inr (Some other)"
    using d cell get2_in[of ?r "tiles g" ?c] by simp
  have "move t ?r ?c (merge t other g) = Inr (slid t ?r ?c (merge t other g))"
    by (rule move_slid) (simp_all add: merge_ok merge_on_grid ok on b)
  then show "slide_body t dx dy (start t g) = start t (absorbed t other ?r ?c g)"
    using b eq by (simp add: slide_body_def start_def Let_def g2 absorbed_def)
qed

lemma slide_unfold:
  "slide t (dx, dy) g =
     (case while_option running (slide_body t dx dy) (slide_body t dx dy (start t g)) of
        None \<Rightarrow> None
      | Some (st, r, c, g1) \<Rightarrow> (case st of Raised e \<Rightarrow> Some (Inl e) | _ \<Rightarrow> Some (Inr g1)))"
proof -
  have "running (start t g)" by (simp add: running_def start_def)
  then have "while_option running (slide_body t dx dy) (start t g)
      = while_option running (slide_body t dx dy) (slide_body t dx dy (start t g))"
    by (subst while_option_unfold) simp
  then show ?thesis by (simp add: slide_def)
qed

subsection \<open>The loops of set_tiles\<close>

lemma get2_nonneg:
  "0 \<le> r \<Longrightarrow> 0 \<le> c \<Longrightarrow>
   get2 m r c = (if entry_ok m r c then Inr (m ! nat r ! nat c) else Inl IndexError)"
  by (auto simp: get2_def py_index_def entry_ok_def)

lemma extends_refl [simp]: "extends g g"
  by (simp add: extends_def)

lemma extends_trans: "extends g g1 \<Longrightarrow> extends g1 g2 \<Longrightarrow> extends g g2"
  by (auto simp: extends_def)

lemma extends_new_tile: "extends g (notify_all k (fst (new_tile r c v g)) (snd (new_tile r c v g)))"
  by (simp add: extends_def new_tile_def notify_all_def)

lemma loaded_cell_mono: "loaded_cell rep g r c x \<Longrightarrow> extends g g1 \<Longrightarrow> loaded_cell rep g1 r c x"
  by (auto simp: loaded_cell_def extends_def split: option.splits)

lemma set_row_Inr:
  assumes "set_row rep r cs acc g = Inr (acc1, g1)" and "0 \<le> r" and "\<forall>c \<in> set cs. 0 \<le> c"
  shows "extends g g1 \<and>
     (\<exists>new. acc1 = acc @ new \<and> length new = length cs \<and>
        (\<forall>j < length cs. entry_ok rep r (cs ! j) \<and> loaded_cell rep g1 r (cs ! j) (new ! j)) \<and>
        (\<forall>u. Some u \<in> set new \<longrightarrow> next_ref g \<le> u))"
  using assms
proof (induction cs arbitrary: acc g)
  case Nil
  then show ?case by simp
next
  case (Cons c cs)
  from Cons.prems have c0: "0 \<le> c" and cs0: "\<forall>c \<in> set cs. 0 \<le> c" by simp_all
  from Cons.prems(1) have e: "entry_ok rep r c"
    by (simp add: get2_nonneg[OF Cons.prems(2) c0] split: if_splits)
  then have g2: "get2 rep r c = Inr (rep ! nat r ! nat c)"
    by (simp add: get2_nonneg[OF Cons.prems(2) c0])
  let ?v = "rep ! nat r ! nat c"
  show ?case
  proof (cases "?v = 0")
    case True
    with Cons.prems(1) g2 have "set_row rep r cs (acc @ [None]) g = Inr (acc1, g1)" by simp
    from Cons.IH[OF this Cons.prems(2) cs0] obtain new where ex: "extends g g1"
      and new: "acc1 = (acc @ [None]) @ new" "length new = length cs"
        "\<forall>j < length cs. entry_ok rep r (cs ! j) \<and> loaded_cell rep g1 r (cs ! j) (new ! j)"
        "\<forall>u. Some u \<in> set new \<longrightarrow> next_ref g \<le> u"
      by blast
    have "\<forall>j < length (c # cs). entry_ok rep r ((c # cs) ! j) \<and>
        loaded_cell rep g1 r ((c # cs) ! j) ((None # new) ! j)"
    proof (intro allI impI)
      fix j assume "j < length (c # cs)"
      then show "entry_ok rep r ((c # cs) ! j) \<and> loaded_cell rep g1 r ((c # cs) ! j) ((None # new) ! j)"
        using e True new(3) by (cases j) (simp_all add: loaded_cell_def)
    qed
    with ex new show ?thesis
      by (intro conjI exI[of _ "None # new"]) simp_all
  next
    case False
    let ?t = "next_ref g"
    let ?g' = "notify_all tile_created ?t (snd (new_tile r c ?v g))"
    from Cons.prems(1) g2 False have "set_row rep r cs (acc @ [Some ?t]) ?g' = Inr (acc1, g1)"
      by (simp add: new_tile_def)
    from Cons.IH[OF this Cons.prems(2) cs0] obtain new where ex: "extends ?g' g1"
      and new: "acc1 = (acc @ [Some ?t]) @ new" "length new = length cs"
        "\<forall>j < length cs. entry_ok rep r (cs ! j) \<and> loaded_cell rep g1 r (cs ! j) (new ! j)"
        "\<forall>u. Some u \<in> set new \<longrightarrow> next_ref ?g' \<le> u"
      by blast
    have ex0: "extends g ?g'" using extends_new_tile[of g tile_created r c ?v] by (simp add: new_tile_def)
    have "loaded_cell rep ?g' r c (Some ?t)"
      by (simp add: loaded_cell_def new_tile_def notify_all_def)
    then have lc: "loaded_cell rep g1 r c (Some ?t)" using ex by (rule loaded_cell_mono)
    have "\<forall>j < length (c # cs). entry_ok rep r ((c # cs) ! j) \<and>
        loaded_cell rep g1 r ((c # cs) ! j) ((Some ?t # new) ! j)"
    proof (intro allI impI)
      fix j assume "j < length (c # cs)"
      then show "entry_ok rep r ((c # cs) ! j) \<and>
          loaded_cell rep g1 r ((c # cs) ! j) ((Some ?t # new) ! j)"
        using e lc new(3) by (cases j) simp_all
    qed
    moreover have "\<forall>u. Some u \<in> set (Some ?t # new) \<longrightarrow> next_ref g \<le> u"
      using new(4) by (auto simp: new_tile_def notify_all_def)
    ultimately show ?thesis using extends_trans[OF ex0 ex] new(1,2)
      by (intro conjI exI[of _ "Some ?t # new"]) simp_all
  qed
qed

lemma set_row_Inl:
  assumes "0 \<le> r" and "\<forall>c \<in> set cs. 0 \<le> c"
  shows "set_row rep r cs acc g = Inl e \<longleftrightarrow> e = IndexError \<and> \<not> (\<forall>c \<in> set cs. entry_ok rep r c)"
  using assms(2)
proof (induction cs arbitrary: acc g)
  case Nil
  then show ?case by simp
next
  case (Cons c cs)
  then have c0: "0 \<le> c" and cs0: "\<forall>c \<in> set cs. 0 \<le> c" by simp_all
  note IH = Cons.IH[OF cs0]
  show ?case
  proof (cases "entry_ok rep r c")
    case False
    then show ?thesis by (auto simp: get2_nonneg[OF assms(1) c0])
  next
    case True
    show ?thesis
    proof (cases "rep ! nat r ! nat c = 0")
      case z: True
      with True show ?thesis by (simp add: get2_nonneg[OF assms(1) c0] IH)
    next
      case nz: False
      with True show ?thesis by (simp add: get2_nonneg[OF assms(1) c0] IH new_tile_def)
    qed
  qed
qed


lemma set_rows_Inr:
  assumes "set_rows rep rs acc g = Inr (acc1, g1)" and "\<forall>r \<in> set rs. 0 \<le> r"
  shows "extends g g1 \<and>
     (\<exists>new. acc1 = acc @ new \<and> length new = length rs \<and>
        (\<forall>i < length rs. length (new ! i) = nat (cols g) \<and>
           (\<forall>j < nat (cols g). entry_ok rep (rs ! i) (int j) \<and>
              loaded_cell rep g1 (rs ! i) (int j) (new ! i ! j) \<and>
              (\<forall>u. new ! i ! j = Some u \<longrightarrow> next_ref g \<le> u))))"
  using assms
proof (induction rs arbitrary: acc g)
  case Nil
  then show ?case by simp
next
  case (Cons r rs)
  from Cons.prems have r0: "0 \<le> r" and rs0: "\<forall>r \<in> set rs. 0 \<le> r" by simp_all
  let ?cs = "[0..cols g - 1]"
  have cs0: "\<forall>c \<in> set ?cs. 0 \<le> c" by simp
  from Cons.prems(1) obtain row_tiles g' where sr: "set_row rep r ?cs [] g = Inr (row_tiles, g')"
    and rest: "set_rows rep rs (acc @ [row_tiles]) g' = Inr (acc1, g1)"
    by (auto split: sum.splits)
  from set_row_Inr[OF sr r0 cs0] have ex0: "extends g g'"
    and len: "length row_tiles = nat (cols g)"
    and cells: "\<forall>j < length ?cs. entry_ok rep r (?cs ! j) \<and> loaded_cell rep g' r (?cs ! j) (row_tiles ! j)"
    and fresh: "\<forall>u. Some u \<in> set row_tiles \<longrightarrow> next_ref g \<le> u"
    by auto
  from ex0 have cg: "cols g' = cols g" and nr: "next_ref g \<le> next_ref g'"
    by (simp_all add: extends_def)
  from Cons.IH[OF rest rs0] obtain new where ex: "extends g' g1"
    and new: "acc1 = (acc @ [row_tiles]) @ new" "length new = length rs"
      "\<forall>i < length rs. length (new ! i) = nat (cols g) \<and>
           (\<forall>j < nat (cols g). entry_ok rep (rs ! i) (int j) \<and>
              loaded_cell rep g1 (rs ! i) (int j) (new ! i ! j) \<and>
              (\<forall>u. new ! i ! j = Some u \<longrightarrow> next_ref g' \<le> u))"
    unfolding cg by blast
  have first: "\<forall>j < nat (cols g). entry_ok rep r (int j) \<and>
      loaded_cell rep g1 r (int j) (row_tiles ! j) \<and>
      (\<forall>u. row_tiles ! j = Some u \<longrightarrow> next_ref g \<le> u)"
  proof (intro allI impI)
    fix j assume j: "j < nat (cols g)"
    then have "?cs ! j = int j" by simp
    moreover from j have "j < length ?cs" by simp
    ultimately have "entry_ok rep r (int j)" "loaded_cell rep g' r (int j) (row_tiles ! j)"
      using cells by (metis)+
    moreover have "\<forall>u. row_tiles ! j = Some u \<longrightarrow> next_ref g \<le> u"
      using fresh j len by (metis nth_mem)
    ultimately show "entry_ok rep r (int j) \<and> loaded_cell rep g1 r (int j) (row_tiles ! j) \<and>
      (\<forall>u. row_tiles ! j = Some u \<longrightarrow> next_ref g \<le> u)"
      using loaded_cell_mono[OF _ ex] by blast
  qed
  have "\<forall>i < length (r # rs). length ((row_tiles # new) ! i) = nat (cols g) \<and>
           (\<forall>j < nat (cols g). entry_ok rep ((r # rs) ! i) (int j) \<and>
              loaded_cell rep g1 ((r # rs) ! i) (int j) ((row_tiles # new) ! i ! j) \<and>
              (\<forall>u. (row_tiles # new) ! i ! j = Some u \<longrightarrow> next_ref g \<le> u))"
  proof (intro allI impI)
    fix i assume i: "i < length (r # rs)"
    show "length ((row_tiles # new) ! i) = nat (cols g) \<and>
           (\<forall>j < nat (cols g). entry_ok rep ((r # rs) ! i) (int j) \<and>
              loaded_cell rep g1 ((r # rs) ! i) (int j) ((row_tiles # new) ! i ! j) \<and>
              (\<forall>u. (row_tiles # new) ! i ! j = Some u \<longrightarrow> next_ref g \<le> u))"
    proof (cases i)
      case 0
      with len first show ?thesis by simp
    next
      case (Suc i')
      with i have "i' < length rs" by simp
      with new(3) nr Suc show ?thesis by (auto intro: order_trans)
    qed
  qed
  with extends_trans[OF ex0 ex] new(1,2) show ?case
    by (intro conjI exI[of _ "row_tiles # new"]) simp_all
qed

lemma set_rows_Inl:
  assumes "\<forall>r \<in> set rs. 0 \<le> r"
  shows "set_rows rep rs acc g = Inl e \<longleftrightarrow>
     e = IndexError \<and> \<not> (\<forall>r \<in> set rs. \<forall>c \<in> set [0..cols g - 1]. entry_ok rep r c)"
  using assms
proof (induction rs arbitrary: acc g)
  case Nil
  then show ?case by simp
next
  case (Cons r rs)
  then have r0: "0 \<le> r" and rs0: "\<forall>r \<in> set rs. 0 \<le> r" by simp_all
  let ?cs = "[0..cols g - 1]"
  have cs0: "\<forall>c \<in> set ?cs. 0 \<le> c" by simp
  show ?case
  proof (cases "set_row rep r ?cs [] g")
    case (Inl e')
    with set_row_Inl[OF r0 cs0, of rep "[]" g e'] show ?thesis by auto
  next
    case (Inr res)
    obtain row_tiles g' where res: "res = (row_tiles, g')" by (cases res)
    from set_row_Inr[OF Inr[unfolded res] r0 cs0] have cg: "cols g' = cols g"
      by (simp add: extends_def)
    from set_row_Inl[OF r0 cs0, of rep "[]" g IndexError] Inr
    have all: "\<forall>c \<in> set ?cs. entry_ok rep r c" by auto
    show ?thesis
      using all by (simp add: Inr res Cons.IH[OF rs0] cg)
  qed
qed

lemma set_tiles_Inr:
  assumes "set_tiles rep g = Inr g1"
  shows "extends g (g1\<lparr>tiles := tiles g\<rparr>)"
    and "length (tiles g1) = nat (rows g)"
    and "i < nat (rows g) \<Longrightarrow> length (tiles g1 ! i) = nat (cols g)"
    and "i < nat (rows g) \<Longrightarrow> j < nat (cols g) \<Longrightarrow>
         entry_ok rep (int i) (int j) \<and> loaded_cell rep g1 (int i) (int j) (tiles g1 ! i ! j) \<and>
         (\<forall>u. tiles g1 ! i ! j = Some u \<longrightarrow> next_ref g \<le> u)"
proof -
  let ?rs = "[0..rows g - 1]"
  from assms obtain m g' where sr: "set_rows rep ?rs [] g = Inr (m, g')"
    and g1: "g1 = g'\<lparr>tiles := m\<rparr>"
    by (auto simp: set_tiles_def split: sum.splits)
  have rs0: "\<forall>r \<in> set ?rs. 0 \<le> r" by simp
  from set_rows_Inr[OF sr rs0] have ex: "extends g g'" and len: "length m = length ?rs"
    and cells: "\<forall>i < length ?rs. length (m ! i) = nat (cols g) \<and>
           (\<forall>j < nat (cols g). entry_ok rep (?rs ! i) (int j) \<and>
              loaded_cell rep g' (?rs ! i) (int j) (m ! i ! j) \<and>
              (\<forall>u. m ! i ! j = Some u \<longrightarrow> next_ref g \<le> u))"
    by auto
  from ex show "extends g (g1\<lparr>tiles := tiles g\<rparr>)" by (simp add: g1 extends_def)
  from len show "length (tiles g1) = nat (rows g)" by (simp add: g1)
  {
    assume i: "i < nat (rows g)"
    then have i': "i < length ?rs" and nth: "?rs ! i = int i" by simp_all
    from cells i' show "length (tiles g1 ! i) = nat (cols g)" by (simp add: g1)
    assume j: "j < nat (cols g)"
    from cells i' j have "entry_ok rep (?rs ! i) (int j) \<and>
              loaded_cell rep g' (?rs ! i) (int j) (m ! i ! j) \<and>
              (\<forall>u. m ! i ! j = Some u \<longrightarrow> next_ref g \<le> u)" by blast
    then show "entry_ok rep (int i) (int j) \<and> loaded_cell rep g1 (int i) (int j) (tiles g1 ! i ! j) \<and>
         (\<forall>u. tiles g1 ! i ! j = Some u \<longrightarrow> next_ref g \<le> u)"
      unfolding nth by (auto simp: g1 loaded_cell_def split: option.splits)
  }
qed

lemma set_tiles_frame:
  assumes "set_tiles rep g = Inr g1"
  shows "sum_g g1 = sum_g g" "rows g1 = rows g" "cols g1 = cols g" "next_ref g \<le> next_ref g1"
    "u < next_ref g \<Longrightarrow> objs g1 u = objs g u"
  using set_tiles_Inr(1)[OF assms] by (simp_all add: extends_def)

lemma set_tiles_as_list:
  assumes "set_tiles rep g = Inr g1"
  shows "as_list g1 = block rep g"
proof -
  note f = set_tiles_Inr[OF assms]
  have "map (\<lambda>cell. case cell of None \<Rightarrow> 0 | Some t \<Rightarrow> val (objs g1 t)) (tiles g1 ! i)
      = map (\<lambda>c. rep ! nat ([0..rows g - 1] ! i) ! nat c) [0..cols g - 1]"
    if i: "i < nat (rows g)" for i
  proof (rule nth_equalityI)
    show "length (map (\<lambda>cell. case cell of None \<Rightarrow> 0 | Some t \<Rightarrow> val (objs g1 t)) (tiles g1 ! i))
        = length (map (\<lambda>c. rep ! nat ([0..rows g - 1] ! i) ! nat c) [0..cols g - 1])"
      using f(3)[OF i] by simp
  next
    fix j assume "j < length (map (\<lambda>cell. case cell of None \<Rightarrow> 0 | Some t \<Rightarrow> val (objs g1 t)) (tiles g1 ! i))"
    then have j: "j < nat (cols g)" using f(3)[OF i] by simp
    from f(4)[OF i j] have "loaded_cell rep g1 (int i) (int j) (tiles g1 ! i ! j)" by simp
    then have "(case tiles g1 ! i ! j of None \<Rightarrow> 0 | Some t \<Rightarrow> val (objs g1 t)) = rep ! i ! j"
      by (auto simp: loaded_cell_def split: option.splits)
    then show "map (\<lambda>cell. case cell of None \<Rightarrow> 0 | Some t \<Rightarrow> val (objs g1 t)) (tiles g1 ! i) ! j
        = map (\<lambda>c. rep ! nat ([0..rows g - 1] ! i) ! nat c) [0..cols g - 1] ! j"
      using i j f(3)[OF i] by simp
  qed
  then show ?thesis
    unfolding as_list_def block_def
    by (intro nth_equalityI) (simp_all add: f(2))
qed

lemma set_tiles_ok:
  assumes ok: "grid_ok g" and st: "set_tiles rep g = Inr g1"
  shows "grid_ok g1"
proof (rule grid_okI)
  note f = set_tiles_Inr[OF st] and fr = set_tiles_frame[OF st]
  have r0: "0 \<le> rows g" using grid_okD(1)[OF ok] by linarith
  show "rows g1 = int (length (tiles g1))" using r0 by (simp add: f(2) fr)
  show "int (length (tiles g1 ! i)) = cols g1" if "i < length (tiles g1)" for i
  proof -
    from that have i: "i < nat (rows g)" by (simp add: f(2))
    with grid_okD(1)[OF ok] have "i < length (tiles g)" by simp
    from grid_okD(2)[OF ok this] have "0 \<le> cols g" by linarith
    with f(3)[OF i] show ?thesis by (simp add: fr)
  qed
  show "t < next_ref g1 \<and> row (objs g1 t) = int i \<and> col (objs g1 t) = int j"
    if "i < length (tiles g1)" "j < length (tiles g1 ! i)" "tiles g1 ! i ! j = Some t" for i j t
  proof -
    from that(1) have i: "i < nat (rows g)" by (simp add: f(2))
    with that(2) have j: "j < nat (cols g)" by (simp add: f(3))
    from f(4)[OF i j] that(3) show ?thesis by (simp add: loaded_cell_def)
  qed
qed

lemma set_tiles_in_cells:
  assumes "set_tiles rep g = Inr g1" and "in_cells g1 u"
  shows "next_ref g \<le> u"
proof -
  note f = set_tiles_Inr[OF assms(1)]
  from assms(2) obtain i j where "i < length (tiles g1)" "j < length (tiles g1 ! i)"
    "tiles g1 ! i ! j = Some u" by (auto simp: in_cells_iff)
  with f(2) f(3)[of i] f(4)[of i j] show ?thesis by simp
qed

lemma set_tiles_Inl:
  "set_tiles rep g = Inl e \<longleftrightarrow> e = IndexError \<and> \<not> covers rep g"
proof -
  have rs0: "\<forall>r \<in> set [0..rows g - 1]. 0 \<le> r" by simp
  show ?thesis
    using set_rows_Inl[OF rs0, of rep "[]" g e]
    by (auto simp: set_tiles_def covers_def split: sum.splits)
qed

lemma set_tiles_covers: "covers rep g \<Longrightarrow> \<exists>g1. set_tiles rep g = Inr g1"
  using set_tiles_Inl[of rep g] by (cases "set_tiles rep g") auto

subsection \<open>The scan of find_empty and the new tile of place_tile\<close>

lemma positions_set: "p \<in> set (positions g) \<longleftrightarrow> in_bounds g (fst p) (snd p)"
proof -
  have "positions g = List.product [0..rows g - 1] [0..cols g - 1]"
    by (simp add: positions_def product_concat_map)
  then have "set (positions g) = {0..rows g - 1} \<times> {0..cols g - 1}" by simp
  then show ?thesis by (cases p) (auto simp: in_bounds_def)
qed

lemma positions_distinct: "distinct (positions g)"
proof -
  have "positions g = List.product [0..rows g - 1] [0..cols g - 1]"
    by (simp add: positions_def product_concat_map)
  then show ?thesis by (simp add: distinct_product)
qed

lemma candidates_filter:
  assumes ok: "grid_ok g" and ps: "\<forall>p \<in> set ps. in_bounds g (fst p) (snd p)"
  shows "candidates g ps = Inr (filter (\<lambda>p. tiles g ! nat (fst p) ! nat (snd p) = None) ps)"
  using ps
proof (induction ps)
  case Nil
  then show ?case by simp
next
  case (Cons p ps)
  then have b: "in_bounds g (fst p) (snd p)" by simp
  note d = in_boundsD[OF ok b]
  have "get2 (tiles g) (fst p) (snd p) = Inr (tiles g ! nat (fst p) ! nat (snd p))"
    using d by (intro get2_in) simp_all
  with Cons show ?case by simp
qed

lemma empty_cells_set:
  "p \<in> set (empty_cells g) \<longleftrightarrow>
     in_bounds g (fst p) (snd p) \<and> tiles g ! nat (fst p) ! nat (snd p) = None"
  by (auto simp: empty_cells_def positions_set)

lemma empty_cells_distinct: "distinct (empty_cells g)"
  by (simp add: empty_cells_def positions_distinct)

lemma find_empty_eq:
  assumes "grid_ok g"
  shows "find_empty k g =
     Inr (if empty_cells g = [] then None else Some (random_choice k (empty_cells g)), g)"
  using candidates_filter[OF assms, of "positions g"]
  by (simp add: find_empty_def empty_cells_def positions_set)

lemma random_choice_mem: "xs \<noteq> [] \<Longrightarrow> random_choice k xs \<in> set xs"
  by (simp add: random_choice_def)

lemma random_choice_unique:
  assumes "distinct xs" and "x \<in> set xs"
  shows "\<exists>!j. j < length xs \<and> random_choice j xs = x"
proof -
  from assms(2) obtain i where i: "i < length xs" "xs ! i = x" by (auto simp: in_set_conv_nth)
  show ?thesis
  proof (rule ex1I[of _ i])
    from i show "i < length xs \<and> random_choice i xs = x" by (simp add: random_choice_def)
  next
    fix j assume "j < length xs \<and> random_choice j xs = x"
    then have "j < length xs" "xs ! j = xs ! i" using i by (auto simp: random_choice_def)
    with assms(1) i(1) show "j = i" by (simp add: nth_eq_iff_index_eq)
  qed
qed

lemma place_tile_full:
  assumes "grid_ok g" and "empty_cells g = []"
  shows "place_tile k d g = Inl AssertionError"
  by (simp add: place_tile_def find_empty_eq[OF assms(1)] assms(2))

lemma place_tile_placed:
  assumes ok: "grid_ok g" and ne: "empty_cells g \<noteq> []"
  shows "place_tile k d g =
     Inr (placed (fst (random_choice k (empty_cells g))) (snd (random_choice k (empty_cells g)))
            (if d = 4 then 4 else 2) g)"
proof -
  obtain r c where p: "random_choice k (empty_cells g) = (r, c)"
    by (cases "random_choice k (empty_cells g)")
  from random_choice_mem[OF ne, of k] p have b: "in_bounds g r c"
    by (simp add: empty_cells_set)
  note d = in_boundsD[OF ok b]
  have "set2 (tiles g) r c x = Inr (upd2 (tiles g) (nat r) (nat c) x)" for x
    using d by (intro set2_in) simp_all
  then show ?thesis
    by (simp add: place_tile_def find_empty_eq[OF ok] ne p new_tile_def placed_def)
qed

lemma placed_fields [simp]:
  "rows (placed r c v g) = rows g" "cols (placed r c v g) = cols g"
  "sum_g (placed r c v g) = sum_g g" "next_ref (placed r c v g) = Suc (next_ref g)"
  "tiles (placed r c v g) = upd2 (tiles g) (nat r) (nat c) (Some (next_ref g))"
  "objs (placed r c v g) = (objs g)(next_ref g := \<lparr>row = r, col = c, val = v\<rparr>)"
  by (simp_all add: placed_def notify_all_def)

lemma placed_ok:
  assumes ok: "grid_ok g" and b: "in_bounds g r c"
  shows "grid_ok (placed r c v g)"
proof (rule grid_okI)
  note d = in_boundsD[OF ok b]
  show "rows (placed r c v g) = int (length (tiles (placed r c v g)))"
    using grid_okD(1)[OF ok] by simp
  show "int (length (tiles (placed r c v g) ! i)) = cols (placed r c v g)"
    if "i < length (tiles (placed r c v g))" for i
    using that grid_okD(2)[OF ok] by simp
  show "u < next_ref (placed r c v g) \<and> row (objs (placed r c v g) u) = int i \<and>
      col (objs (placed r c v g) u) = int j"
    if i: "i < length (tiles (placed r c v g))" and j: "j < length (tiles (placed r c v g) ! i)"
      and u: "tiles (placed r c v g) ! i ! j = Some u" for i j u
  proof (cases "(i, j) = (nat r, nat c)")
    case True
    with u d have "u = next_ref g" by (simp add: upd2_nth_same)
    with True d show ?thesis by simp
  next
    case False
    then have "upd2 (tiles g) (nat r) (nat c) (Some (next_ref g)) ! i ! j = tiles g ! i ! j"
      by (rule upd2_nth_other)
    with u have old: "tiles g ! i ! j = Some u" by simp
    from i j have "i < length (tiles g)" "j < length (tiles g ! i)" by simp_all
    from grid_okD(3)[OF ok this old] show ?thesis by simp
  qed
qed

lemma placed_in_cells:
  assumes ok: "grid_ok g" and b: "in_bounds g r c" and u: "in_cells (placed r c v g) u"
  shows "in_cells g u \<or> u = next_ref g"
proof -
  from u obtain i j where i: "i < length (tiles g)" and j: "j < length (tiles g ! i)"
    and c: "upd2 (tiles g) (nat r) (nat c) (Some (next_ref g)) ! i ! j = Some u"
    by (auto simp: in_cells_iff)
  note d = in_boundsD[OF ok b]
  show ?thesis
  proof (cases "(i, j) = (nat r, nat c)")
    case True
    with c d show ?thesis by (simp add: upd2_nth_same)
  next
    case False
    then have "upd2 (tiles g) (nat r) (nat c) (Some (next_ref g)) ! i ! j = tiles g ! i ! j"
      by (rule upd2_nth_other)
    with c i j show ?thesis by (auto simp: in_cells_iff)
  qed
qed

lemma grid_ok_in_cells: "grid_ok g \<Longrightarrow> in_cells g u \<Longrightarrow> u < next_ref g"
  by (auto simp: in_cells_iff dest: grid_okD(3))

lemma map_map_upd2:
  "i < length m \<Longrightarrow> map (map f) (upd2 m i j x) = upd2 (map (map f) m) i j (f x)"
  by (simp add: upd2_def map_update)

lemma placed_as_list:
  assumes ok: "grid_ok g" and b: "in_bounds g r c"
  shows "as_list (placed r c v g) = upd2 (as_list g) (nat r) (nat c) v"
proof -
  note d = in_boundsD[OF ok b]
  let ?f = "\<lambda>cell. case cell of None \<Rightarrow> 0 | Some t \<Rightarrow> val (objs (placed r c v g) t)"
  let ?h = "\<lambda>cell. case cell of None \<Rightarrow> 0 | Some t \<Rightarrow> val (objs g t)"
  have cell: "?f x = ?h x" if "xs \<in> set (tiles g)" "x \<in> set xs" for xs x
  proof -
    from that have "x = None \<or> (\<exists>u. x = Some u \<and> in_cells g u)"
      by (cases x) (auto simp: in_cells_def)
    then show ?thesis using grid_ok_in_cells[OF ok, of "next_ref g"] by (auto split: option.splits)
  qed
  have same: "map (map ?f) (tiles g) = map (map ?h) (tiles g)"
    by (rule map_cong[OF refl], rule map_cong[OF refl], rule cell)
  have "as_list (placed r c v g) = map (map ?f) (upd2 (tiles g) (nat r) (nat c) (Some (next_ref g)))"
    by (simp only: as_list_def placed_fields(5))
  also have "\<dots> = upd2 (map (map ?f) (tiles g)) (nat r) (nat c) (?f (Some (next_ref g)))"
    using d(3) by (rule map_map_upd2)
  also have "?f (Some (next_ref g)) = v" by simp
  finally show ?thesis by (simp add: same as_list_def)
qed

subsection \<open>Score and events\<close>

lemma merged_total_append [simp]: "merged_total (xs @ ys) = merged_total xs + merged_total ys"
  by (simp add: merged_total_def)

lemma absorbed_events:
  "events (absorbed t other r c g) =
     events g @
     [\<lparr>kind = tile_removed, tile = other, seen = objs (merge t other g) other\<rparr>,
      \<lparr>kind = tile_updated, tile = t, seen = objs (merge t other g) t\<rparr>,
      \<lparr>kind = tile_updated, tile = t, seen = (objs (merge t other g) t)\<lparr>row := r, col := c\<rparr>\<rparr>]"
  by (simp add: absorbed_def Let_def slid_events) (simp add: merge_def remove_t_def notify_all_def)

lemma score_slid:
  assumes "\<exists>evs. events g = events g0 @ evs \<and> sum_g g = sum_g g0 + 2 * merged_total evs"
  shows "\<exists>evs. events (slid t r c g) = events g0 @ evs \<and>
     sum_g (slid t r c g) = sum_g g0 + 2 * merged_total evs"
proof -
  from assms obtain evs where e: "events g = events g0 @ evs"
    "sum_g g = sum_g g0 + 2 * merged_total evs" by blast
  let ?new = "[\<lparr>kind = tile_updated, tile = t, seen = (objs g t)\<lparr>row := r, col := c\<rparr>\<rparr>]"
  have "events (slid t r c g) = events g0 @ (evs @ ?new)" by (simp add: slid_events e)
  moreover have "sum_g (slid t r c g) = sum_g g0 + 2 * merged_total (evs @ ?new)"
    by (simp add: e) (simp add: merged_total_def)
  ultimately show ?thesis by blast
qed

lemma score_absorbed:
  assumes cm: "can_merge g t other r c"
    and "\<exists>evs. events g = events g0 @ evs \<and> sum_g g = sum_g g0 + 2 * merged_total evs"
  shows "\<exists>evs. events (absorbed t other r c g) = events g0 @ evs \<and>
     sum_g (absorbed t other r c g) = sum_g g0 + 2 * merged_total evs"
proof -
  from assms(2) obtain evs where e: "events g = events g0 @ evs"
    "sum_g g = sum_g g0 + 2 * merged_total evs" by blast
  let ?new = "[\<lparr>kind = tile_removed, tile = other, seen = objs (merge t other g) other\<rparr>,
      \<lparr>kind = tile_updated, tile = t, seen = objs (merge t other g) t\<rparr>,
      \<lparr>kind = tile_updated, tile = t, seen = (objs (merge t other g) t)\<lparr>row := r, col := c\<rparr>\<rparr>]"
  have "events (absorbed t other r c g) = events g0 @ (evs @ ?new)"
    by (simp add: absorbed_events e)
  moreover have "merged_total ?new = val (objs g other)"
    using can_mergeD(4)[OF cm] by (simp add: merged_total_def)
  then have "sum_g (absorbed t other r c g) = sum_g g0 + 2 * merged_total (evs @ ?new)"
    using can_mergeD(3)[OF cm] by (simp add: e)
  ultimately show ?thesis by blast
qed

subsection \<open>Tiles that are in no cell\<close>

lemma out_slid:
  "can_slide g t r c \<Longrightarrow> next_ref g = n \<and> \<not> in_cells g u
   \<Longrightarrow> next_ref (slid t r c g) = n \<and> \<not> in_cells (slid t r c g) u"
  by (simp add: can_slide_in_cells)

lemma out_absorbed:
  "can_merge g t other r c \<Longrightarrow> next_ref g = n \<and> \<not> in_cells g u
   \<Longrightarrow> next_ref (absorbed t other r c g) = n \<and> \<not> in_cells (absorbed t other r c g) u"
  by (simp add: absorbed_in_cells)

lemma later_keeps_out:
  assumes "later g g2" and "grid_ok g" and "u < next_ref g" and "\<not> in_cells g u"
  shows "grid_ok g2 \<and> u < next_ref g2 \<and> \<not> in_cells g2 u"
  using assms
proof (induction rule: later.induct)
  case (later_now g)
  then show ?case by simp
next
  case (later_slide g g1 t mv g2)
  then have ok: "grid_ok g1" and u: "u < next_ref g1" "\<not> in_cells g1 u" by simp_all
  obtain dx dy where mv: "mv = (dx, dy)" by (cases mv)
  from slide_total[where Q = "\<lambda>g'. next_ref g' = next_ref g1 \<and> \<not> in_cells g' u",
      OF ok later_slide.hyps(2) later_slide.hyps(3)[unfolded mv] _ out_slid out_absorbed] u(2)
  obtain g' where "slide t (dx, dy) g1 = Some (Inr g')" "grid_ok g'"
    "next_ref g' = next_ref g1" "\<not> in_cells g' u" by blast
  with later_slide.hyps(4) u(1) show ?case by (simp add: mv)
next
  case (later_left g g1 g2)
  then have ok: "grid_ok g1" and u: "u < next_ref g1" "\<not> in_cells g1 u" by simp_all
  from moves_total(1)[where Q = "\<lambda>g'. next_ref g' = next_ref g1 \<and> \<not> in_cells g' u",
      OF out_slid out_absorbed ok] u(2) later_left.hyps(2) u(1)
  show ?case by auto
next
  case (later_right g g1 g2)
  then have ok: "grid_ok g1" and u: "u < next_ref g1" "\<not> in_cells g1 u" by simp_all
  from moves_total(2)[where Q = "\<lambda>g'. next_ref g' = next_ref g1 \<and> \<not> in_cells g' u",
      OF out_slid out_absorbed ok] u(2) later_right.hyps(2) u(1)
  show ?case by auto
next
  case (later_up g g1 g2)
  then have ok: "grid_ok g1" and u: "u < next_ref g1" "\<not> in_cells g1 u" by simp_all
  from moves_total(3)[where Q = "\<lambda>g'. next_ref g' = next_ref g1 \<and> \<not> in_cells g' u",
      OF out_slid out_absorbed ok] u(2) later_up.hyps(2) u(1)
  show ?case by auto
next
  case (later_down g g1 g2)
  then have ok: "grid_ok g1" and u: "u < next_ref g1" "\<not> in_cells g1 u" by simp_all
  from moves_total(4)[where Q = "\<lambda>g'. next_ref g' = next_ref g1 \<and> \<not> in_cells g' u",
      OF out_slid out_absorbed ok] u(2) later_down.hyps(2) u(1)
  show ?case by auto
next
  case (later_place g g1 k d g2)
  then have ok: "grid_ok g1" and u: "u < next_ref g1" "\<not> in_cells g1 u" by simp_all
  from later_place.hyps(2) have ne: "empty_cells g1 \<noteq> []"
    using place_tile_full[OF ok, of k d] by auto
  let ?p = "random_choice k (empty_cells g1)"
  from random_choice_mem[OF ne, of k] have b: "in_bounds g1 (fst ?p) (snd ?p)"
    by (simp add: empty_cells_set)
  from later_place.hyps(2) have g2: "g2 = placed (fst ?p) (snd ?p) (if d = 4 then 4 else 2) g1"
    by (simp add: place_tile_placed[OF ok ne])
  from placed_in_cells[OF ok b, of _ u] u have "\<not> in_cells g2 u" unfolding g2 by auto
  with placed_ok[OF ok b] u(1) show ?case by (simp add: g2)
next
  case (later_load g g1 rep g2)
  then have ok: "grid_ok g1" and u: "u < next_ref g1" "\<not> in_cells g1 u" by simp_all
  from set_tiles_in_cells[OF later_load.hyps(2), of u] u(1) have "\<not> in_cells g2 u" by auto
  with set_tiles_ok[OF ok later_load.hyps(2)] set_tiles_frame(4)[OF later_load.hyps(2)] u(1)
  show ?case by simp
qed

subsection \<open>The invariant in a game\<close>

text \<open>The invariant holds for a new grid and for every grid that follows it.\<close>

lemma Grid_init_ok: "grid_ok Grid_init"
  by (rule grid_okI) (simp_all add: Grid_init_def GRID_SIZE_def)

lemma later_ok:
  assumes "later g g2" and "grid_ok g"
  shows "grid_ok g2"
  using assms
proof (induction rule: later.induct)
  case (later_now g)
  then show ?case by simp
next
  case (later_slide g g1 t mv g2)
  then have ok: "grid_ok g1" by simp
  obtain dx dy where mv: "mv = (dx, dy)" by (cases mv)
  from slide_total[where Q = "\<lambda>_. True", OF ok later_slide.hyps(2) later_slide.hyps(3)[unfolded mv]]
    later_slide.hyps(4)
  show ?case by (auto simp: mv)
next
  case (later_left g g1 g2)
  with moves_total(1)[where Q = "\<lambda>_. True" and g = g1] show ?case by auto
next
  case (later_right g g1 g2)
  with moves_total(2)[where Q = "\<lambda>_. True" and g = g1] show ?case by auto
next
  case (later_up g g1 g2)
  with moves_total(3)[where Q = "\<lambda>_. True" and g = g1] show ?case by auto
next
  case (later_down g g1 g2)
  with moves_total(4)[where Q = "\<lambda>_. True" and g = g1] show ?case by auto
next
  case (later_place g g1 k d g2)
  then have ok: "grid_ok g1" by simp
  from later_place.hyps(2) have ne: "empty_cells g1 \<noteq> []"
    using place_tile_full[OF ok, of k d] by auto
  let ?p = "random_choice k (empty_cells g1)"
  from random_choice_mem[OF ne, of k] have b: "in_bounds g1 (fst ?p) (snd ?p)"
    by (simp add: empty_cells_set)
  from later_place.hyps(2) have "g2 = placed (fst ?p) (snd ?p) (if d = 4 then 4 else 2) g1"
    by (simp add: place_tile_placed[OF ok ne])
  with placed_ok[OF ok b] show ?case by simp
next
  case (later_load g g1 rep g2)
  then show ?case by (simp add: set_tiles_ok)
qed

lemma game_grids_ok: "later Grid_init g \<Longrightarrow> grid_ok g"
  by (rule later_ok[OF _ Grid_init_ok])

section \<open>Properties\<close>

subsection \<open>A slide goes on after a merge\<close>

text \<open>
  C1 as stated (a tile merges at most once during a move and stops at the merge point)
  does not hold. In the row \<open>[4,2,2,0]\<close> a left move makes the third tile absorb the
  second one and then, in the same slide, the first one: the row becomes \<open>[8,0,0,0]\<close>,
  the one tile left is the third tile, and the tiles removed are the second and the
  first, in this order.
\<close>

theorem slide_merges_twice:
  "map_option (map_sum id as_list)
     (left (board_of [[4, 2, 2, 0], [0, 0, 0, 0], [0, 0, 0, 0], [0, 0, 0, 0]]))
     = Some (Inr [[8, 0, 0, 0], [0, 0, 0, 0], [0, 0, 0, 0], [0, 0, 0, 0]]) \<and>
   map_option (map_sum id tiles)
     (left (board_of [[4, 2, 2, 0], [0, 0, 0, 0], [0, 0, 0, 0], [0, 0, 0, 0]]))
     = Some (Inr [[Some 2, None, None, None], [None, None, None, None],
                  [None, None, None, None], [None, None, None, None]]) \<and>
   map_option (map_sum id (\<lambda>g. map tile (filter (\<lambda>e. kind e = tile_removed) (events g))))
     (left (board_of [[4, 2, 2, 0], [0, 0, 0, 0], [0, 0, 0, 0], [0, 0, 0, 0]]))
     = Some (Inr [1, 0])"
  by code_simp

text \<open>
  C1, amended. When the cell next to a sliding tile along a unit vector holds a tile of
  equal value, the pass of the loop takes the tile to that cell with the sum of the two
  values and keeps the loop running: the slide from the old grid is the slide of the
  same tile from the grid after the merge. That slide returns, and at its end the tile
  is blocked: the next cell along the vector is outside the grid or holds a tile of a
  different value. So a tile merges again whenever the next tile matches its new value.
\<close>

theorem slide_continues_after_merge:
  assumes "grid_ok g" and "on_grid g t" and "unit_vector (dx, dy)"
    and "in_bounds g (row (objs g t) + dy) (col (objs g t) + dx)"
    and "tiles g ! nat (row (objs g t) + dy) ! nat (col (objs g t) + dx) = Some other"
    and "val (objs g other) = val (objs g t)"
  shows "\<exists>g1 g2. slide_body t dx dy (start t g) = start t g1 \<and>
     val (objs g1 t) = val (objs g t) + val (objs g other) \<and>
     row (objs g1 t) = row (objs g t) + dy \<and> col (objs g1 t) = col (objs g t) + dx \<and>
     slide t (dx, dy) g = slide t (dx, dy) g1 \<and>
     slide t (dx, dy) g1 = Some (Inr g2) \<and> blocked dx dy g2 t"
proof -
  let ?g1 = "absorbed t other (row (objs g t) + dy) (col (objs g t) + dx) g"
  note m = slide_body_merge[OF assms]
  have ok1: "grid_ok ?g1" and on1: "on_grid ?g1 t"
    using m(1) by (rule absorbed_ok, rule absorbed_on_grid)
  from slide_total[where Q = "\<lambda>_. True", OF ok1 on1 assms(3)]
  obtain g2 where g2: "slide t (dx, dy) ?g1 = Some (Inr g2)" "blocked dx dy g2 t" by blast
  have "slide t (dx, dy) g = slide t (dx, dy) ?g1"
    by (simp add: slide_unfold[of t dx dy g] m(2)) (simp add: slide_def)
  with m(2) g2 show ?thesis
    by (intro exI[of _ ?g1] exI[of _ g2]) simp
qed

theorem slide_continues_after_merge_witness:
  "grid_ok (board_of [[4, 2, 2, 0], [0, 0, 0, 0], [0, 0, 0, 0], [0, 0, 0, 0]]) \<and>
   on_grid (board_of [[4, 2, 2, 0], [0, 0, 0, 0], [0, 0, 0, 0], [0, 0, 0, 0]]) 2 \<and>
   unit_vector (-1, 0) \<and>
   in_bounds (board_of [[4, 2, 2, 0], [0, 0, 0, 0], [0, 0, 0, 0], [0, 0, 0, 0]]) 0 1 \<and>
   tiles (board_of [[4, 2, 2, 0], [0, 0, 0, 0], [0, 0, 0, 0], [0, 0, 0, 0]]) ! 0 ! 1 = Some 1 \<and>
   val (objs (board_of [[4, 2, 2, 0], [0, 0, 0, 0], [0, 0, 0, 0], [0, 0, 0, 0]]) 1) = 2 \<and>
   val (objs (board_of [[4, 2, 2, 0], [0, 0, 0, 0], [0, 0, 0, 0], [0, 0, 0, 0]]) 2) = 2 \<and>
   (\<exists>g1 g2.
      slide_body 2 (-1) 0 (start 2 (board_of [[4, 2, 2, 0], [0, 0, 0, 0], [0, 0, 0, 0], [0, 0, 0, 0]]))
        = start 2 g1 \<and>
      val (objs g1 2) = 4 \<and> row (objs g1 2) = 0 \<and> col (objs g1 2) = 1 \<and>
      slide 2 (-1, 0) (board_of [[4, 2, 2, 0], [0, 0, 0, 0], [0, 0, 0, 0], [0, 0, 0, 0]])
        = slide 2 (-1, 0) g1 \<and>
      slide 2 (-1, 0) g1 = Some (Inr g2) \<and> blocked (-1) 0 g2 2)"
proof -
  let ?g = "board_of [[4, 2, 2, 0], [0, 0, 0, 0], [0, 0, 0, 0], [0, 0, 0, 0]]"
  have h1: "grid_ok ?g" by code_simp
  have h2: "on_grid ?g 2" by code_simp
  have h3: "unit_vector (-1, 0)" by (simp add: unit_vector_def)
  have r: "row (objs ?g 2) = 0" and c: "col (objs ?g 2) = 2"
    and v1: "val (objs ?g 1) = 2" and v2: "val (objs ?g 2) = 2"
    by code_simp+
  have h4: "in_bounds ?g (row (objs ?g 2) + 0) (col (objs ?g 2) + (-1))" by code_simp
  have h5: "tiles ?g ! nat (row (objs ?g 2) + 0) ! nat (col (objs ?g 2) + (-1)) = Some 1"
    by code_simp
  have h6: "val (objs ?g 1) = val (objs ?g 2)" by (simp only: v1 v2)
  have v1': "val (objs ?g (Suc 0)) = 2" by code_simp
  from slide_continues_after_merge[OF h1 h2 h3 h4 h5 h6] h1 h2 h3 h4 h5
  show ?thesis by (simp add: r c v1' v2)
qed

subsection \<open>The score\<close>

text \<open>
  C2 as stated (a merge adds the value the two tiles shared before the merge, so that
  merging two 2-tiles adds 2) does not hold. In the row \<open>[2,2,0,0]\<close> a right move
  performs one merge, of two tiles of value 2, and the score goes from 0 to 4.
\<close>

theorem merge_scores_the_sum:
  "map_option (map_sum id (\<lambda>g. (as_list g, score g,
        map (\<lambda>e. val (seen e)) (filter (\<lambda>e. kind e = tile_removed) (events g)))))
     (right (board_of [[2, 2, 0, 0], [0, 0, 0, 0], [0, 0, 0, 0], [0, 0, 0, 0]]))
   = Some (Inr ([[0, 0, 0, 4], [0, 0, 0, 0], [0, 0, 0, 0], [0, 0, 0, 0]], 4, [2])) \<and>
   score (board_of [[2, 2, 0, 0], [0, 0, 0, 0], [0, 0, 0, 0], [0, 0, 0, 0]]) = 0"
  by code_simp

text \<open>
  C2, amended. Each merge of a move adds to the score the sum of the merged pair, that
  is twice the value the two tiles shared (the value of the absorbing tile after the
  merge), once per merge: over a move the score grows by twice the total of the values
  of the removed tiles. Nothing else changes the score: a slide step without a merge
  adds nothing, and \<^verbatim>\<open>place_tile\<close>, \<^verbatim>\<open>set_tiles\<close> and \<^verbatim>\<open>find_empty\<close> leave it as it is.
\<close>

theorem score_counts_merged_sums:
  assumes "grid_ok g"
  shows "(\<exists>g1 evs. left g = Some (Inr g1) \<and> events g1 = events g @ evs \<and>
            score g1 = score g + 2 * merged_total evs) \<and>
     (\<exists>g1 evs. right g = Some (Inr g1) \<and> events g1 = events g @ evs \<and>
            score g1 = score g + 2 * merged_total evs) \<and>
     (\<exists>g1 evs. up g = Some (Inr g1) \<and> events g1 = events g @ evs \<and>
            score g1 = score g + 2 * merged_total evs) \<and>
     (\<exists>g1 evs. down g = Some (Inr g1) \<and> events g1 = events g @ evs \<and>
            score g1 = score g + 2 * merged_total evs) \<and>
     (case place_tile k d g of Inl e \<Rightarrow> True | Inr g1 \<Rightarrow> score g1 = score g) \<and>
     (case set_tiles rep g of Inl e \<Rightarrow> True | Inr g1 \<Rightarrow> score g1 = score g) \<and>
     (case find_empty k g of Inl e \<Rightarrow> True | Inr (res, g1) \<Rightarrow> score g1 = score g)"
proof -
  let ?Q = "\<lambda>g1. \<exists>evs. events g1 = events g @ evs \<and> sum_g g1 = sum_g g + 2 * merged_total evs"
  have Q0: "?Q g" by (simp add: merged_total_def)
  note m = moves_total[where Q = ?Q, OF score_slid score_absorbed assms Q0]
  have p: "case place_tile k d g of Inl e \<Rightarrow> True | Inr g1 \<Rightarrow> score g1 = score g"
  proof (cases "empty_cells g = []")
    case True
    then show ?thesis by (simp add: place_tile_full[OF assms])
  next
    case False
    then show ?thesis by (simp add: place_tile_placed[OF assms] score_def)
  qed
  have s: "case set_tiles rep g of Inl e \<Rightarrow> True | Inr g1 \<Rightarrow> score g1 = score g"
    by (cases "set_tiles rep g") (simp_all add: set_tiles_frame(1) score_def)
  have f: "case find_empty k g of Inl e \<Rightarrow> True | Inr (res, g1) \<Rightarrow> score g1 = score g"
    by (simp add: find_empty_eq[OF assms])
  from m p s f show ?thesis unfolding score_def by blast
qed

theorem score_counts_merged_sums_witness:
  "grid_ok (board_of [[2, 2, 0, 0], [0, 0, 0, 0], [0, 0, 0, 0], [0, 0, 0, 0]]) \<and>
   (\<exists>g1 evs. left (board_of [[2, 2, 0, 0], [0, 0, 0, 0], [0, 0, 0, 0], [0, 0, 0, 0]]) = Some (Inr g1) \<and>
      events g1 = events (board_of [[2, 2, 0, 0], [0, 0, 0, 0], [0, 0, 0, 0], [0, 0, 0, 0]]) @ evs \<and>
      score g1 = 2 * merged_total evs)"
proof -
  let ?g = "board_of [[2, 2, 0, 0], [0, 0, 0, 0], [0, 0, 0, 0], [0, 0, 0, 0]]"
  have h: "grid_ok ?g" by code_simp
  have z: "score ?g = 0" by code_simp
  from score_counts_merged_sums[OF h, of 0 0 "[]"] h show ?thesis unfolding z by simp
qed

subsection \<open>The scenario of a single merge\<close>

text \<open>
  C3. Starting from the grid \<open>[[2,2,0,0],[0,0,0,0],[0,0,0,0],[0,0,0,0]]\<close>, loaded into a
  new grid, a left move returns with first row \<open>[4,0,0,0]\<close> and all other rows empty,
  and the score is 4 more than before.
\<close>

theorem left_merges_pair_scores_4:
  "(case set_tiles [[2, 2, 0, 0], [0, 0, 0, 0], [0, 0, 0, 0], [0, 0, 0, 0]] Grid_init of
      Inl e \<Rightarrow> False
    | Inr g \<Rightarrow>
        as_list g = [[2, 2, 0, 0], [0, 0, 0, 0], [0, 0, 0, 0], [0, 0, 0, 0]] \<and>
        (case left g of
           Some (Inr g1) \<Rightarrow>
             as_list g1 = [[4, 0, 0, 0], [0, 0, 0, 0], [0, 0, 0, 0], [0, 0, 0, 0]] \<and>
             score g1 = score g + 4
         | _ \<Rightarrow> False))"
  by code_simp

subsection \<open>Loading a matrix\<close>

text \<open>
  C4 as stated (a matrix with wrong dimensions, a negative entry or a non-zero entry
  that is not a power of two is rejected) does not hold. A matrix of five rows, one of
  them with five entries, with the entries \<open>-2\<close>, \<open>3\<close> and \<open>6\<close>, is loaded
  into a new grid without any failure: the grid shows the first four entries of the
  first four rows as they are.
\<close>

theorem set_tiles_accepts_any_values:
  "map_sum id as_list
     (set_tiles [[-2, 3, 0, 0], [0, 0, 0, 0], [0, 0, 6, 0], [0, 0, 0, 0, 5], [1]] Grid_init)
     = Inr [[-2, 3, 0, 0], [0, 0, 0, 0], [0, 0, 6, 0], [0, 0, 0, 0]]"
  by code_simp

text \<open>
  C4, amended. \<^verbatim>\<open>set_tiles\<close> checks nothing but the presence of the entries it
  reads. When the matrix has an entry at every position of the grid, the call returns
  and every cell shows the entry at its position, whatever its value; further rows and
  columns of the matrix are ignored. When an entry is missing (too few rows, or too few
  entries in one of the rows read), the call fails with \<^verbatim>\<open>IndexError\<close>.
\<close>

theorem set_tiles_checks_presence_only:
  "if covers rep g
   then \<exists>g1. set_tiles rep g = Inr g1 \<and> as_list g1 = block rep g
   else set_tiles rep g = Inl IndexError"
proof (cases "covers rep g")
  case True
  from set_tiles_covers[OF this] obtain g1 where "set_tiles rep g = Inr g1" by blast
  with set_tiles_as_list[OF this] True show ?thesis by auto
next
  case False
  then show ?thesis by (simp add: set_tiles_Inl)
qed

theorem set_tiles_checks_presence_only_witness:
  "covers [[-2, 3, 0, 0, 9], [0, 0, 0, 0], [0, 0, 0, 0], [0, 0, 0, 0]] Grid_init \<and>
   (\<exists>g1. set_tiles [[-2, 3, 0, 0, 9], [0, 0, 0, 0], [0, 0, 0, 0], [0, 0, 0, 0]] Grid_init = Inr g1 \<and>
      as_list g1 = [[-2, 3, 0, 0], [0, 0, 0, 0], [0, 0, 0, 0], [0, 0, 0, 0]]) \<and>
   \<not> covers [[2, 2, 0, 0], [0, 0, 0], [0, 0, 0, 0], [0, 0, 0, 0]] Grid_init \<and>
   set_tiles [[2, 2, 0, 0], [0, 0, 0], [0, 0, 0, 0], [0, 0, 0, 0]] Grid_init = Inl IndexError"
proof -
  let ?a = "[[-2, 3, 0, 0, 9], [0, 0, 0, 0], [0, 0, 0, 0], [0, 0, 0, 0]] :: int list list"
  let ?b = "[[2, 2, 0, 0], [0, 0, 0], [0, 0, 0, 0], [0, 0, 0, 0]] :: int list list"
  have a: "covers ?a Grid_init" by code_simp
  have b: "\<not> covers ?b Grid_init" by code_simp
  have bl: "block ?a Grid_init = [[-2, 3, 0, 0], [0, 0, 0, 0], [0, 0, 0, 0], [0, 0, 0, 0]]"
    by code_simp
  from set_tiles_checks_presence_only[of ?a Grid_init] set_tiles_checks_presence_only[of ?b Grid_init]
    a b bl
  show ?thesis by simp
qed

subsection \<open>Moves conserve the total of the tile values\<close>

text \<open>
  C5. For every grid that satisfies the representation invariant \<open>grid_ok\<close> (the cell
  array has the grid's dimensions, and every tile in a cell is a created tile whose own
  position is that cell), each of the four moves returns, and the sum of the values of
  all tiles on the grid after the move equals the sum before the move.
\<close>

theorem moves_keep_board_sum:
  assumes "grid_ok g"
  shows "(\<exists>g1. left g = Some (Inr g1) \<and> board_sum g1 = board_sum g) \<and>
         (\<exists>g1. right g = Some (Inr g1) \<and> board_sum g1 = board_sum g) \<and>
         (\<exists>g1. up g = Some (Inr g1) \<and> board_sum g1 = board_sum g) \<and>
         (\<exists>g1. down g = Some (Inr g1) \<and> board_sum g1 = board_sum g)"
  using moves_total[where Q = "\<lambda>g1. board_sum g1 = board_sum g", OF conserve_slid conserve_absorbed assms]
  by blast

theorem moves_keep_board_sum_witness:
  "grid_ok (board_of [[2, 2, 0, 0], [0, 0, 0, 0], [0, 0, 4, 0], [0, 0, 0, 0]]) \<and>
   (\<exists>g1. left (board_of [[2, 2, 0, 0], [0, 0, 0, 0], [0, 0, 4, 0], [0, 0, 0, 0]]) = Some (Inr g1) \<and>
      board_sum g1 = 8)"
proof -
  have h: "grid_ok (board_of [[2, 2, 0, 0], [0, 0, 0, 0], [0, 0, 4, 0], [0, 0, 0, 0]])"
    by code_simp
  have s: "board_sum (board_of [[2, 2, 0, 0], [0, 0, 0, 0], [0, 0, 4, 0], [0, 0, 0, 0]]) = 8"
    by code_simp
  from moves_keep_board_sum[OF h] h s show ?thesis by simp
qed

subsection \<open>Placing a tile\<close>

text \<open>
  C6. On a grid that satisfies \<open>grid_ok\<close> and has an empty cell, \<^verbatim>\<open>place_tile\<close>
  returns: one cell that was empty now holds a tile that was created by the call (its
  reference was in no cell before) and has the value 2 or 4, and every other cell and
  every other tile is as before. On a grid without an empty cell \<^verbatim>\<open>place_tile\<close> fails
  with the assertion error.
\<close>

theorem place_tile_fills_one_empty_cell:
  assumes "grid_ok g"
  shows "if empty_cells g = [] then place_tile k d g = Inl AssertionError
     else \<exists>g1 r c v. place_tile k d g = Inr g1 \<and>
            in_bounds g r c \<and> tiles g ! nat r ! nat c = None \<and>
            \<not> in_cells g (next_ref g) \<and> (v = 2 \<or> v = 4) \<and>
            tiles g1 = upd2 (tiles g) (nat r) (nat c) (Some (next_ref g)) \<and>
            objs g1 = (objs g)(next_ref g := \<lparr>row = r, col = c, val = v\<rparr>) \<and>
            as_list g1 = upd2 (as_list g) (nat r) (nat c) v"
proof (cases "empty_cells g = []")
  case True
  with place_tile_full[OF assms this] show ?thesis by simp
next
  case False
  let ?p = "random_choice k (empty_cells g)"
  let ?v = "if d = 4 then 4 else 2 :: int"
  from random_choice_mem[OF False, of k]
  have b: "in_bounds g (fst ?p) (snd ?p)" and e: "tiles g ! nat (fst ?p) ! nat (snd ?p) = None"
    by (simp_all add: empty_cells_set)
  have "\<not> in_cells g (next_ref g)" using grid_ok_in_cells[OF assms, of "next_ref g"] by auto
  moreover have "?v = 2 \<or> ?v = 4" by simp
  ultimately have "\<exists>g1 r c v. place_tile k d g = Inr g1 \<and>
            in_bounds g r c \<and> tiles g ! nat r ! nat c = None \<and>
            \<not> in_cells g (next_ref g) \<and> (v = 2 \<or> v = 4) \<and>
            tiles g1 = upd2 (tiles g) (nat r) (nat c) (Some (next_ref g)) \<and>
            objs g1 = (objs g)(next_ref g := \<lparr>row = r, col = c, val = v\<rparr>) \<and>
            as_list g1 = upd2 (as_list g) (nat r) (nat c) v"
    using place_tile_placed[OF assms False, of k d] b e placed_as_list[OF assms b, of ?v]
    by (intro exI[of _ "placed (fst ?p) (snd ?p) ?v g"] exI[of _ "fst ?p"] exI[of _ "snd ?p"]
        exI[of _ ?v]) simp
  with False show ?thesis by simp
qed

theorem place_tile_fills_one_empty_cell_witness:
  "grid_ok (board_of [[2, 2, 0, 0], [0, 0, 0, 0], [0, 0, 0, 0], [0, 0, 0, 0]]) \<and>
   empty_cells (board_of [[2, 2, 0, 0], [0, 0, 0, 0], [0, 0, 0, 0], [0, 0, 0, 0]]) \<noteq> [] \<and>
   (\<exists>g1. place_tile 5 4 (board_of [[2, 2, 0, 0], [0, 0, 0, 0], [0, 0, 0, 0], [0, 0, 0, 0]]) = Inr g1) \<and>
   grid_ok full_grid \<and> empty_cells full_grid = [] \<and>
   place_tile 5 4 full_grid = Inl AssertionError"
proof -
  let ?g = "board_of [[2, 2, 0, 0], [0, 0, 0, 0], [0, 0, 0, 0], [0, 0, 0, 0]]"
  have h: "grid_ok ?g" by code_simp
  have e: "empty_cells ?g \<noteq> []" by code_simp
  have hf: "grid_ok full_grid" by code_simp
  have ef: "empty_cells full_grid = []" by code_simp
  from place_tile_fills_one_empty_cell[OF h, of 5 4] place_tile_fills_one_empty_cell[OF hf, of 5 4]
    h e hf ef
  show ?thesis by auto
qed

subsection \<open>Finding an empty cell\<close>

text \<open>
  C7. On a grid that satisfies \<open>grid_ok\<close>, \<^verbatim>\<open>find_empty\<close> returns and leaves the grid
  as it is. Its result is none exactly when the grid has no empty cell, and otherwise
  the position of an empty cell. The choice among the empty cells is the one
  \<^verbatim>\<open>random.choice\<close> makes in the list of all empty cells and in no other list: with
  \<open>n\<close> empty cells and the draw \<open>k\<close>, the result is the entry \<open>k mod n\<close> of that
  list. The list holds every empty cell once, so its \<open>n\<close> indices correspond one to
  one to the empty cells, each empty cell is the result for exactly one of the draws
  \<open>0, \<dots>, n - 1\<close>, and a uniform draw gives a uniform choice among all empty cells.
\<close>

theorem find_empty_picks_empty_cell:
  assumes "grid_ok g"
  shows "find_empty k g =
       Inr (if empty_cells g = [] then None
            else Some (empty_cells g ! (k mod length (empty_cells g))), g) \<and>
     bij_betw (\<lambda>j. empty_cells g ! j) {..<length (empty_cells g)}
       {(r, c). in_bounds g r c \<and> tiles g ! nat r ! nat c = None} \<and>
     (\<exists>res. find_empty k g = Inr (res, g) \<and>
     (res = None \<longleftrightarrow> empty_cells g = []) \<and>
     (case res of
        None \<Rightarrow> True
      | Some p \<Rightarrow> in_bounds g (fst p) (snd p) \<and> tiles g ! nat (fst p) ! nat (snd p) = None) \<and>
     distinct (empty_cells g) \<and>
     set (empty_cells g) = {(r, c). in_bounds g r c \<and> tiles g ! nat r ! nat c = None} \<and>
     (\<forall>p \<in> set (empty_cells g).
        \<exists>!j. j < length (empty_cells g) \<and> find_empty j g = Inr (Some p, g)))"
proof -
  let ?res = "if empty_cells g = [] then None else Some (random_choice k (empty_cells g))"
  have "find_empty k g = Inr (?res, g)" by (rule find_empty_eq[OF assms])
  moreover have "?res = None \<longleftrightarrow> empty_cells g = []" by simp
  moreover have "case ?res of
        None \<Rightarrow> True
      | Some p \<Rightarrow> in_bounds g (fst p) (snd p) \<and> tiles g ! nat (fst p) ! nat (snd p) = None"
    using random_choice_mem[of "empty_cells g" k] by (simp add: empty_cells_set)
  moreover have "set (empty_cells g) = {(r, c). in_bounds g r c \<and> tiles g ! nat r ! nat c = None}"
    by (auto simp: empty_cells_set)
  moreover have "\<forall>p \<in> set (empty_cells g).
        \<exists>!j. j < length (empty_cells g) \<and> find_empty j g = Inr (Some p, g)"
  proof
    fix p assume p: "p \<in> set (empty_cells g)"
    then have ne: "empty_cells g \<noteq> []" by auto
    from random_choice_unique[OF empty_cells_distinct p]
    show "\<exists>!j. j < length (empty_cells g) \<and> find_empty j g = Inr (Some p, g)"
      by (simp add: find_empty_eq[OF assms] ne)
  qed
  ultimately have old: "\<exists>res. find_empty k g = Inr (res, g) \<and>
     (res = None \<longleftrightarrow> empty_cells g = []) \<and>
     (case res of
        None \<Rightarrow> True
      | Some p \<Rightarrow> in_bounds g (fst p) (snd p) \<and> tiles g ! nat (fst p) ! nat (snd p) = None) \<and>
     distinct (empty_cells g) \<and>
     set (empty_cells g) = {(r, c). in_bounds g r c \<and> tiles g ! nat r ! nat c = None} \<and>
     (\<forall>p \<in> set (empty_cells g).
        \<exists>!j. j < length (empty_cells g) \<and> find_empty j g = Inr (Some p, g))"
    using empty_cells_distinct[of g] by (intro exI[of _ ?res] conjI)
  have pin: "find_empty k g =
       Inr (if empty_cells g = [] then None
            else Some (empty_cells g ! (k mod length (empty_cells g))), g)"
    by (simp add: find_empty_eq[OF assms] random_choice_def)
  have "set (empty_cells g) = {(r, c). in_bounds g r c \<and> tiles g ! nat r ! nat c = None}"
    by (auto simp: empty_cells_set)
  with bij_betw_nth[OF empty_cells_distinct[of g] refl refl]
  have bij: "bij_betw (\<lambda>j. empty_cells g ! j) {..<length (empty_cells g)}
       {(r, c). in_bounds g r c \<and> tiles g ! nat r ! nat c = None}"
    by simp
  from pin bij old show ?thesis by (intro conjI)
qed

theorem find_empty_picks_empty_cell_witness:
  "grid_ok (board_of [[2, 2, 0, 0], [0, 0, 0, 0], [0, 0, 0, 0], [0, 0, 0, 0]]) \<and>
   (0, 2) \<in> set (empty_cells (board_of [[2, 2, 0, 0], [0, 0, 0, 0], [0, 0, 0, 0], [0, 0, 0, 0]])) \<and>
   (\<exists>!j. j < 14 \<and>
      find_empty j (board_of [[2, 2, 0, 0], [0, 0, 0, 0], [0, 0, 0, 0], [0, 0, 0, 0]])
        = Inr (Some (0, 2), board_of [[2, 2, 0, 0], [0, 0, 0, 0], [0, 0, 0, 0], [0, 0, 0, 0]])) \<and>
   find_empty 15 (board_of [[2, 2, 0, 0], [0, 0, 0, 0], [0, 0, 0, 0], [0, 0, 0, 0]])
     = Inr (Some (0, 3), board_of [[2, 2, 0, 0], [0, 0, 0, 0], [0, 0, 0, 0], [0, 0, 0, 0]]) \<and>
   grid_ok full_grid \<and> find_empty 15 full_grid = Inr (None, full_grid)"
proof -
  let ?g = "board_of [[2, 2, 0, 0], [0, 0, 0, 0], [0, 0, 0, 0], [0, 0, 0, 0]]"
  have h: "grid_ok ?g" by code_simp
  have m: "(0, 2) \<in> set (empty_cells ?g)" by code_simp
  have n: "length (empty_cells ?g) = 14" by code_simp
  have e: "empty_cells ?g ! 1 = (0, 3)" by code_simp
  have hf: "grid_ok full_grid" by code_simp
  have ef: "empty_cells full_grid = []" by code_simp
  from n have ne: "empty_cells ?g \<noteq> []" by auto
  from find_empty_picks_empty_cell[OF h, of 0] m
  have u: "\<exists>!j. j < length (empty_cells ?g) \<and> find_empty j ?g = Inr (Some (0, 2), ?g)" by blast
  from find_empty_picks_empty_cell[OF h, of 15]
  have "find_empty 15 ?g = Inr (Some (empty_cells ?g ! (15 mod 14)), ?g)"
    unfolding n using ne by simp
  then have p: "find_empty 15 ?g = Inr (Some (0, 3), ?g)" using e by simp
  from find_empty_picks_empty_cell[OF hf, of 15]
  have f: "find_empty 15 full_grid = Inr (None, full_grid)" by (simp add: ef)
  from h m u p hf f show ?thesis unfolding n by simp
qed

subsection \<open>The two tiles of a merge\<close>

text \<open>
  C8 as stated (the absorbing tile keeps its position) does not hold. In a column with
  two tiles of value 2 in rows 0 and 1, a move up makes the tile of row 1 absorb the
  other: the tile of row 0 is removed, and the absorbing tile, now of value 4, is in
  row 0, the cell of the tile it has absorbed.
\<close>

theorem absorber_moves_onto_absorbed:
  "(row (objs (board_of [[2, 0, 0, 0], [2, 0, 0, 0], [0, 0, 0, 0], [0, 0, 0, 0]]) 1),
    col (objs (board_of [[2, 0, 0, 0], [2, 0, 0, 0], [0, 0, 0, 0], [0, 0, 0, 0]]) 1),
    val (objs (board_of [[2, 0, 0, 0], [2, 0, 0, 0], [0, 0, 0, 0], [0, 0, 0, 0]]) 1)) = (1, 0, 2) \<and>
   map_option (map_sum id (\<lambda>g. (row (objs g 1), col (objs g 1), val (objs g 1), tiles g ! 0 ! 0,
        map tile (filter (\<lambda>e. kind e = tile_removed) (events g)))))
     (up (board_of [[2, 0, 0, 0], [2, 0, 0, 0], [0, 0, 0, 0], [0, 0, 0, 0]]))
   = Some (Inr (0, 0, 4, Some 1, [0]))"
  by code_simp

text \<open>
  C8, amended. When the cell next to a sliding tile along a unit vector holds a tile of
  equal value, the pass of the loop merges the two: the sliding tile absorbs the other
  one, its value doubles (so it grows when it is positive), and it moves into the cell
  of the absorbed tile, leaving its own cell empty. The absorbed tile is announced as
  removed, is in no cell after the pass, and is in no cell of any grid that follows:
  no slide, move, placement or load puts it back.
\<close>

theorem merge_takes_the_cell_of_the_absorbed:
  assumes "grid_ok g" and "on_grid g t" and "unit_vector (dx, dy)"
    and "in_bounds g (row (objs g t) + dy) (col (objs g t) + dx)"
    and "tiles g ! nat (row (objs g t) + dy) ! nat (col (objs g t) + dx) = Some other"
    and "val (objs g other) = val (objs g t)"
  shows "\<exists>g1. slide_body t dx dy (start t g) = start t g1 \<and>
     val (objs g1 t) = 2 * val (objs g t) \<and>
     (0 < val (objs g t) \<longrightarrow> val (objs g t) < val (objs g1 t)) \<and>
     \<lparr>kind = tile_removed, tile = other, seen = objs g other\<rparr> \<in> set (events g1) \<and>
     row (objs g1 t) = row (objs g other) \<and> col (objs g1 t) = col (objs g other) \<and>
     tiles g1 ! nat (row (objs g other)) ! nat (col (objs g other)) = Some t \<and>
     tiles g1 ! nat (row (objs g t)) ! nat (col (objs g t)) = None \<and>
     \<not> in_cells g1 other \<and> (\<forall>g2. later g1 g2 \<longrightarrow> \<not> in_cells g2 other)"
proof -
  let ?r = "row (objs g t) + dy" and ?c = "col (objs g t) + dx"
  let ?g1 = "absorbed t other ?r ?c g"
  note m = slide_body_merge[OF assms]
  note cs = can_mergeD(5)[OF m(1)] and cs0 = can_mergeD(1)[OF m(1)]
  note d = in_boundsD[OF assms(1,4)] and d0 = in_boundsD[OF assms(1) can_stepD(4)[OF cs0]]
  from grid_okD(3)[OF assms(1) d(3,4) assms(5)] d(1,2)
  have po: "row (objs g other) = ?r" "col (objs g other) = ?c" and lt: "other < next_ref g"
    by simp_all
  have ok1: "grid_ok ?g1" using m(1) by (rule absorbed_ok)
  have out: "\<not> in_cells ?g1 other" by (simp add: absorbed_in_cells[OF m(1)])
  have t1: "tiles ?g1 = tiles (slid t ?r ?c (merge t other g))" by (simp add: absorbed_def Let_def)
  have c1: "tiles ?g1 ! nat ?r ! nat ?c = Some t"
    unfolding t1 using slid_cell[OF cs, of "nat ?r" "nat ?c"] d by simp
  have c0: "tiles ?g1 ! nat (row (objs g t)) ! nat (col (objs g t)) = None"
    unfolding t1 using slid_cell[OF cs, of "nat (row (objs g t))" "nat (col (objs g t))"] d0
      can_stepD(6)[OF cs0] by auto
  have "\<forall>g2. later ?g1 g2 \<longrightarrow> \<not> in_cells g2 other"
    using later_keeps_out[OF _ ok1 _ out] lt by auto
  moreover have "objs (merge t other g) other = objs g other"
    using can_mergeD(4)[OF m(1)] by (simp add: merge_def remove_t_def notify_all_def)
  then have "\<lparr>kind = tile_removed, tile = other, seen = objs g other\<rparr> \<in> set (events ?g1)"
    by (simp add: absorbed_events)
  ultimately show ?thesis using m(2) c1 c0 out assms(6)
    by (intro exI[of _ ?g1]) (simp add: po)
qed

theorem merge_takes_the_cell_of_the_absorbed_witness:
  "grid_ok (board_of [[2, 2, 0, 0], [0, 0, 0, 0], [0, 0, 0, 0], [0, 0, 0, 0]]) \<and>
   on_grid (board_of [[2, 2, 0, 0], [0, 0, 0, 0], [0, 0, 0, 0], [0, 0, 0, 0]]) 1 \<and>
   unit_vector (-1, 0) \<and>
   in_bounds (board_of [[2, 2, 0, 0], [0, 0, 0, 0], [0, 0, 0, 0], [0, 0, 0, 0]]) 0 0 \<and>
   tiles (board_of [[2, 2, 0, 0], [0, 0, 0, 0], [0, 0, 0, 0], [0, 0, 0, 0]]) ! 0 ! 0 = Some 0 \<and>
   val (objs (board_of [[2, 2, 0, 0], [0, 0, 0, 0], [0, 0, 0, 0], [0, 0, 0, 0]]) 0) = 2 \<and>
   val (objs (board_of [[2, 2, 0, 0], [0, 0, 0, 0], [0, 0, 0, 0], [0, 0, 0, 0]]) 1) = 2 \<and>
   (\<exists>g1. slide_body 1 (-1) 0 (start 1 (board_of [[2, 2, 0, 0], [0, 0, 0, 0], [0, 0, 0, 0], [0, 0, 0, 0]]))
        = start 1 g1 \<and>
      val (objs g1 1) = 4 \<and> \<lparr>kind = tile_removed, tile = 0, seen = \<lparr>row = 0, col = 0, val = 2\<rparr>\<rparr> \<in> set (events g1) \<and>
      row (objs g1 1) = 0 \<and> col (objs g1 1) = 0 \<and>
      tiles g1 ! 0 ! 0 = Some 1 \<and> tiles g1 ! 0 ! 1 = None \<and>
      \<not> in_cells g1 0 \<and> (\<forall>g2. later g1 g2 \<longrightarrow> \<not> in_cells g2 0))"
proof -
  let ?g = "board_of [[2, 2, 0, 0], [0, 0, 0, 0], [0, 0, 0, 0], [0, 0, 0, 0]]"
  have h1: "grid_ok ?g" by code_simp
  have h2: "on_grid ?g 1" by code_simp
  have h3: "unit_vector (-1, 0)" by (simp add: unit_vector_def)
  have r: "row (objs ?g 1) = 0" and c: "col (objs ?g 1) = 1"
    and r0: "row (objs ?g 0) = 0" and c0: "col (objs ?g 0) = 0"
    and v0: "val (objs ?g 0) = 2" and v1: "val (objs ?g 1) = 2"
    by code_simp+
  have h4: "in_bounds ?g (row (objs ?g 1) + 0) (col (objs ?g 1) + (-1))" by code_simp
  have h5: "tiles ?g ! nat (row (objs ?g 1) + 0) ! nat (col (objs ?g 1) + (-1)) = Some 0"
    by code_simp
  have h6: "val (objs ?g 0) = val (objs ?g 1)" by (simp only: v0 v1)
  have o0: "objs ?g 0 = \<lparr>row = 0, col = 0, val = 2\<rparr>" by code_simp
  have h4': "in_bounds ?g 0 0" by code_simp
  have h5': "tiles ?g ! 0 ! 0 = Some 0" by code_simp
  have r': "row (objs ?g (Suc 0)) = 0" and c': "col (objs ?g (Suc 0)) = 1"
    and v1': "val (objs ?g (Suc 0)) = 2" by code_simp+
  from merge_takes_the_cell_of_the_absorbed[OF h1 h2 h3 h4 h5 h6] h1 h2 h3 h4' h5'
  show ?thesis by (simp add: r' c' r0 c0 v0 v1' o0) blast
qed

subsection \<open>Loading keeps the score\<close>

text \<open>
  C9. A call of \<^verbatim>\<open>set_tiles\<close> that returns replaces the cells by the entries of the
  matrix and leaves the score as it was (it neither resets it nor restores a saved
  one); the grid's dimensions stay as well.
\<close>

theorem set_tiles_leaves_score:
  assumes "set_tiles rep g = Inr g1"
  shows "score g1 = score g \<and> rows g1 = rows g \<and> cols g1 = cols g \<and> as_list g1 = block rep g"
  using set_tiles_frame(1-3)[OF assms] set_tiles_as_list[OF assms] by (simp add: score_def)

theorem set_tiles_leaves_score_witness:
  "score (Grid_init\<lparr>sum_g := 12\<rparr>) = 12 \<and>
   (\<exists>g1. set_tiles [[2, 0, 0, 0], [0, 0, 0, 0], [0, 0, 0, 0], [0, 0, 0, 4]] (Grid_init\<lparr>sum_g := 12\<rparr>)
           = Inr g1 \<and>
         score g1 = 12 \<and> as_list g1 = [[2, 0, 0, 0], [0, 0, 0, 0], [0, 0, 0, 0], [0, 0, 0, 4]])"
proof -
  let ?m = "[[2, 0, 0, 0], [0, 0, 0, 0], [0, 0, 0, 0], [0, 0, 0, 4]] :: int list list"
  let ?g = "Grid_init\<lparr>sum_g := 12\<rparr>"
  have "covers ?m ?g" by code_simp
  from set_tiles_covers[OF this] obtain g1 where g1: "set_tiles ?m ?g = Inr g1" by blast
  have s: "score ?g = 12" by (simp add: score_def)
  have bl: "block ?m ?g = ?m" by code_simp
  from set_tiles_leaves_score[OF g1] g1 s bl show ?thesis by simp
qed

subsection \<open>Termination of the probe loop\<close>

text \<open>
  C10. For every tile on a grid that satisfies \<open>grid_ok\<close> and each of the four unit
  movement vectors, \<^verbatim>\<open>Tile.slide\<close> returns. Its loop ends after at most \<open>k\<close> passes
  with \<open>k\<close> no more than the larger of the grid's two dimensions (which is \<open>N\<close> for
  the square grid of the game), and a pass either stops the loop, or moves the tile
  one cell along the vector to a cell inside the grid and leaves a grid from which the
  next pass starts under the same conditions.
\<close>

theorem slide_terminates_within_grid_size:
  assumes "grid_ok g" and "on_grid g t" and "unit_vector (dx, dy)"
  shows "(\<exists>g1. slide t (dx, dy) g = Some (Inr g1)) \<and>
     (\<exists>k \<le> nat (max (rows g) (cols g)).
        while_option running (slide_body t dx dy) (start t g)
          = Some ((slide_body t dx dy ^^ k) (start t g))) \<and>
     (slide_body t dx dy (start t g) = (Broke, row (objs g t), col (objs g t), g) \<or>
      (\<exists>g1. slide_body t dx dy (start t g) = start t g1 \<and> grid_ok g1 \<and> on_grid g1 t \<and>
         rows g1 = rows g \<and> cols g1 = cols g \<and>
         in_bounds g (row (objs g t) + dy) (col (objs g t) + dx) \<and>
         row (objs g1 t) = row (objs g t) + dy \<and> col (objs g1 t) = col (objs g t) + dx))"
  using slide_total[where Q = "\<lambda>_. True", OF assms] slide_first_pass[OF assms]
  by blast

theorem slide_terminates_within_grid_size_witness:
  "grid_ok (board_of [[0, 0, 2, 0], [0, 0, 0, 0], [0, 0, 0, 0], [0, 0, 0, 0]]) \<and>
   on_grid (board_of [[0, 0, 2, 0], [0, 0, 0, 0], [0, 0, 0, 0], [0, 0, 0, 0]]) 0 \<and>
   unit_vector (-1, 0) \<and>
   (\<exists>k \<le> 4.
      while_option running (slide_body 0 (-1) 0)
         (start 0 (board_of [[0, 0, 2, 0], [0, 0, 0, 0], [0, 0, 0, 0], [0, 0, 0, 0]]))
       = Some ((slide_body 0 (-1) 0 ^^ k)
           (start 0 (board_of [[0, 0, 2, 0], [0, 0, 0, 0], [0, 0, 0, 0], [0, 0, 0, 0]]))))"
proof -
  let ?g = "board_of [[0, 0, 2, 0], [0, 0, 0, 0], [0, 0, 0, 0], [0, 0, 0, 0]]"
  have h1: "grid_ok ?g" by code_simp
  have h2: "on_grid ?g 0" by code_simp
  have h3: "unit_vector (-1, 0)" by (simp add: unit_vector_def)
  have n: "nat (max (rows ?g) (cols ?g)) = 4" by code_simp
  from slide_terminates_within_grid_size[OF h1 h2 h3] h1 h2 h3 n show ?thesis by simp
qed


end
